theory Spec2Isabelle
  imports Main "HOL-Library.List_Lexorder" "HOL-Library.Char_ord"
begin

section \<open>The replicated file store of DFS.cpp\<close>

text \<open>
  The program keeps a vector of nodes, each with an id and a liveness flag, and a
  \<^verbatim>\<open>std::map\<close> from file names to the ids of the nodes that hold a copy. The
  copies themselves live in one directory per node, \<^verbatim>\<open>node_<id>\<close>, and are
  written, read and removed with \<^verbatim>\<open>std::filesystem\<close>.

  Integers are the \<^verbatim>\<open>int\<close> of the source, modelled as \<^typ>\<open>int\<close>: the only
  arithmetic is a counter that stays below four, a counter bounded by the length of a
  replica list, and \<^verbatim>\<open>id - 1\<close> on ids.
\<close>

subsection \<open>Nodes\<close>

text \<open>
  \<^verbatim>\<open>class Node { int id; bool active; fs::path directory; }\<close>. The directory
  is \<^verbatim>\<open>"node_" + to_string(id)\<close>, a function of the id, so the model names a
  node's directory by the id.
\<close>

record node =
  node_id :: int
  active :: bool

definition Node :: "int \<Rightarrow> node" where
  "Node i = \<lparr>node_id = i, active = True\<rparr>"

definition fail :: "node \<Rightarrow> node" where
  "fail nd = nd\<lparr>active := False\<rparr>"

definition recover :: "node \<Rightarrow> node" where
  "recover nd = nd\<lparr>active := True\<rparr>"

subsection \<open>The metadata map\<close>

text \<open>
  \<^verbatim>\<open>map<string, vector<int>> metadata\<close>: an ordered map, iterated in ascending
  key order. It is modelled by the list of its entries in that order.
  \<open>md_count\<close> is \<^verbatim>\<open>metadata.count(k)\<close>, \<open>md_lookup\<close> reads
  \<^verbatim>\<open>metadata[k]\<close> for a key that is present, \<open>md_assign\<close> is
  \<^verbatim>\<open>metadata[k] = v\<close> and \<open>md_erase\<close> is \<^verbatim>\<open>metadata.erase(k)\<close>.
\<close>

type_synonym directory = "(string \<times> int list) list"

definition md_count :: "directory \<Rightarrow> string \<Rightarrow> bool" where
  "md_count m k = (map_of m k \<noteq> None)"

definition md_lookup :: "directory \<Rightarrow> string \<Rightarrow> int list" where
  "md_lookup m k = (case map_of m k of None \<Rightarrow> [] | Some v \<Rightarrow> v)"

fun md_assign :: "string \<Rightarrow> int list \<Rightarrow> directory \<Rightarrow> directory" where
  "md_assign k v [] = [(k, v)]"
| "md_assign k v ((k', v') # m) =
     (if k = k' then (k, v) # m
      else if k < k' then (k, v) # (k', v') # m
      else (k', v') # md_assign k v m)"

definition md_erase :: "string \<Rightarrow> directory \<Rightarrow> directory" where
  "md_erase k m = filter (\<lambda>e. fst e \<noteq> k) m"

subsection \<open>The file system\<close>

text \<open>
  The node directories are a set of pairs (node id, name): the pair \<open>(i, name)\<close> is in
  the set when the path \<^verbatim>\<open>node_<i>/name\<close> exists.
  The working directory, where \<^verbatim>\<open>upload\<close> reads its source and
  \<^verbatim>\<open>download\<close> writes \<^verbatim>\<open>downloaded_<name>\<close>, is the set \<open>cwd\<close> of the
  names that exist in it (what \<^verbatim>\<open>fs::exists\<close> tests) and the set \<open>dirs\<close> of
  the names in it that are directories (what \<^verbatim>\<open>fs::is_directory\<close> tests, so a
  link to a directory is one). The two sets of paths are kept apart: a name is not read
  as a path that leads from one directory into another.

  Every \<^verbatim>\<open>fs::copy\<close> and \<^verbatim>\<open>fs::remove\<close> may throw
  \<^verbatim>\<open>fs::filesystem_error\<close>. Which calls throw for reasons outside the program
  is a parameter \<open>io\<close> of each operation; a call that throws changes nothing.
  Besides, \<^verbatim>\<open>fs::copy\<close> throws when its source does not exist, and
  \<^verbatim>\<open>fs::remove\<close> of a file that does not exist returns without throwing.
  Each operation returns the calls it made, in order.

  \<open>written\<close> is what \<^verbatim>\<open>fs::copy(filename, node.directory / filename,
  fs::copy_options::overwrite_existing)\<close> of \<^verbatim>\<open>upload\<close> leaves when it
  returns. For a source that is a regular file the target path exists afterwards (the
  file was created or overwritten, or copied into the target when that is a directory).
  For a source that is a directory, \<^verbatim>\<open>fs::copy\<close> without the option
  \<^verbatim>\<open>recursive\<close> has no effect: it returns and nothing is written (it throws
  when the target is a regular file, which is one of the throws of \<open>io\<close>). A source
  of any other kind makes \<^verbatim>\<open>fs::copy\<close> throw.
\<close>

datatype io_call = Store int string | Fetch int string | Remove int string

type_synonym store = "(int \<times> string) set"

type_synonym faults = "io_call \<Rightarrow> bool"

definition written :: "string set \<Rightarrow> int \<Rightarrow> string \<Rightarrow> store \<Rightarrow> store" where
  "written ds i filename d = (if filename \<in> ds then d else insert (i, filename) d)"

subsection \<open>The coordinator\<close>

record state =
  nodes :: "node list"
  metadata :: directory
  disk :: store
  cwd :: "string set"
  dirs :: "string set"

definition REPLICATION :: int where
  "REPLICATION = 3"

text \<open>
  What an operation prints, as a value:
  \<^item> \<open>SourceNotFound\<close>: \<^verbatim>\<open>Error: File not found.\<close> of \<^verbatim>\<open>upload\<close>;
  \<^item> \<open>ReplicationIOError\<close>: the message of a \<^verbatim>\<open>catch\<close> block,
    \<^verbatim>\<open>Error during file replication\<close>, \<^verbatim>\<open>Error during download\<close> or
    \<^verbatim>\<open>Error during deletion\<close>, according to the operation;
  \<^item> \<open>InsufficientReplicas\<close>: \<^verbatim>\<open>Error: Not enough active nodes for 3 replicas!\<close>;
  \<^item> \<open>UploadSuccess\<close>: \<^verbatim>\<open>[UPLOAD SUCCESS]\<close> with the ids of \<^verbatim>\<open>usedNodes\<close>;
  \<^item> \<open>NotFound\<close>: \<^verbatim>\<open>Error: File not found in DFS.\<close> of \<^verbatim>\<open>download\<close> and
    \<^verbatim>\<open>Error: File not found.\<close> of \<^verbatim>\<open>deleteFile\<close>;
  \<^item> \<open>DownloadSuccess\<close>: \<^verbatim>\<open>[DOWNLOAD SUCCESS]\<close> with the node id;
  \<^item> \<open>AllReplicasUnavailable\<close>: \<^verbatim>\<open>[ERROR] All replicas are unavailable.\<close>;
  \<^item> \<open>DeleteSuccess\<close>: \<^verbatim>\<open>[DELETE SUCCESS]\<close>;
  \<^item> \<open>NodeNotFound\<close>: \<^verbatim>\<open>Error: Invalid node ID\<close>;
  \<^item> \<open>NodeFailed\<close>, \<open>NodeRecovered\<close>: \<^verbatim>\<open>[NODE FAILED]\<close>, \<^verbatim>\<open>[NODE RECOVERED]\<close>,
    followed by the warnings of the health audit;
  \<^item> \<open>LowReplicaWarning file n\<close>: \<^verbatim>\<open>WARNING: File 'file' has only n active replicas!\<close>.
\<close>

datatype warning = LowReplicaWarning string int

datatype report =
    SourceNotFound
  | ReplicationIOError
  | InsufficientReplicas
  | UploadSuccess "int list"
  | NotFound
  | DownloadSuccess int
  | AllReplicasUnavailable
  | DeleteSuccess
  | NodeNotFound int
  | NodeFailed int "warning list"
  | NodeRecovered int "warning list"
  | OutOfRange

text \<open>
  \<open>OutOfRange\<close> stands for \<^verbatim>\<open>nodes[i - 1]\<close> with \<open>i\<close> outside
  \<open>1..nodes.size()\<close>, which the source does not check: \<open>node_at\<close> is that read.
\<close>

definition node_at :: "node list \<Rightarrow> int \<Rightarrow> node option" where
  "node_at nds i = (if 1 \<le> i \<and> i \<le> int (length nds) then Some (nds ! nat (i - 1)) else None)"

text \<open>The constructor: nodes \<open>1..totalNodes\<close>, all active, no metadata.
  The constructor creates the node directories that do not exist, and one that exists
  keeps its files: \<open>d\<close>, \<open>c\<close> and \<open>ds\<close> are the file system as the constructor
  leaves it.\<close>

definition DistributedFS :: "int \<Rightarrow> store \<Rightarrow> string set \<Rightarrow> string set \<Rightarrow> state" where
  "DistributedFS totalNodes d c ds =
     \<lparr>nodes = map Node [1..totalNodes], metadata = [], disk = d, cwd = c, dirs = ds\<rparr>"

subsubsection \<open>upload\<close>

text \<open>
  The loop over \<^verbatim>\<open>nodes\<close>. \<open>None\<close> is the exception leaving the loop;
  \<open>Some (usedNodes, replicated)\<close> is the loop ending, by \<^verbatim>\<open>break\<close> or at
  the end of the vector. \<open>ds\<close> are the directories of the working directory: a
  copy that returns counts as a replica whether or not it wrote anything.
\<close>

fun upload_loop ::
  "faults \<Rightarrow> string set \<Rightarrow> string \<Rightarrow> node list \<Rightarrow> store \<Rightarrow> io_call list \<Rightarrow> int list \<Rightarrow> int
     \<Rightarrow> (int list \<times> int) option \<times> store \<times> io_call list" where
  "upload_loop io ds filename [] d tr usedNodes replicated =
     (Some (usedNodes, replicated), d, tr)"
| "upload_loop io ds filename (nd # rest) d tr usedNodes replicated =
     (if active nd then
        (if io (Store (node_id nd) filename)
         then (None, d, tr @ [Store (node_id nd) filename])
         else (if replicated + 1 = REPLICATION
               then (Some (usedNodes @ [node_id nd], replicated + 1),
                     written ds (node_id nd) filename d, tr @ [Store (node_id nd) filename])
               else upload_loop io ds filename rest (written ds (node_id nd) filename d)
                      (tr @ [Store (node_id nd) filename])
                      (usedNodes @ [node_id nd]) (replicated + 1)))
      else (if replicated = REPLICATION then (Some (usedNodes, replicated), d, tr)
            else upload_loop io ds filename rest d tr usedNodes replicated))"

definition upload :: "faults \<Rightarrow> string \<Rightarrow> state \<Rightarrow> report \<times> io_call list \<times> state" where
  "upload io filename s =
     (if filename \<notin> cwd s then (SourceNotFound, [], s)
      else (case upload_loop io (dirs s) filename (nodes s) (disk s) [] [] 0 of
              (None, d, tr) \<Rightarrow> (ReplicationIOError, tr, s\<lparr>disk := d\<rparr>)
            | (Some (usedNodes, replicated), d, tr) \<Rightarrow>
                (if replicated < REPLICATION then (InsufficientReplicas, tr, s\<lparr>disk := d\<rparr>)
                 else (UploadSuccess usedNodes, tr,
                       s\<lparr>metadata := md_assign filename usedNodes (metadata s), disk := d\<rparr>))))"

subsubsection \<open>download\<close>

fun download_loop ::
  "faults \<Rightarrow> string \<Rightarrow> node list \<Rightarrow> store \<Rightarrow> int list \<Rightarrow> report \<times> io_call list" where
  "download_loop io filename nds d [] = (AllReplicasUnavailable, [])"
| "download_loop io filename nds d (nodeID # rest) =
     (case node_at nds nodeID of
        None \<Rightarrow> (OutOfRange, [])
      | Some nd \<Rightarrow>
          (if active nd then
             (if io (Fetch nodeID filename) \<or> (nodeID, filename) \<notin> d
              then (ReplicationIOError, [Fetch nodeID filename])
              else (DownloadSuccess nodeID, [Fetch nodeID filename]))
           else download_loop io filename nds d rest))"

definition download :: "faults \<Rightarrow> string \<Rightarrow> state \<Rightarrow> report \<times> io_call list \<times> state" where
  "download io filename s =
     (if \<not> md_count (metadata s) filename then (NotFound, [], s)
      else (case download_loop io filename (nodes s) (disk s) (md_lookup (metadata s) filename) of
              (DownloadSuccess nodeID, tr) \<Rightarrow>
                (DownloadSuccess nodeID, tr, s\<lparr>cwd := insert (''downloaded_'' @ filename) (cwd s)\<rparr>)
            | (r, tr) \<Rightarrow> (r, tr, s)))"

subsubsection \<open>deleteFile\<close>

text \<open>The loop of removals: it ends normally (\<open>DeleteSuccess\<close>), by an exception, or
  at a read outside the vector. The node's liveness is not looked at.\<close>

fun delete_loop ::
  "faults \<Rightarrow> string \<Rightarrow> node list \<Rightarrow> store \<Rightarrow> io_call list \<Rightarrow> int list
     \<Rightarrow> report \<times> store \<times> io_call list" where
  "delete_loop io filename nds d tr [] = (DeleteSuccess, d, tr)"
| "delete_loop io filename nds d tr (nodeID # rest) =
     (case node_at nds nodeID of
        None \<Rightarrow> (OutOfRange, d, tr)
      | Some nd \<Rightarrow>
          (if io (Remove nodeID filename)
           then (ReplicationIOError, d, tr @ [Remove nodeID filename])
           else delete_loop io filename nds (d - {(nodeID, filename)})
                  (tr @ [Remove nodeID filename]) rest))"

definition deleteFile :: "faults \<Rightarrow> string \<Rightarrow> state \<Rightarrow> report \<times> io_call list \<times> state" where
  "deleteFile io filename s =
     (if \<not> md_count (metadata s) filename then (NotFound, [], s)
      else (case delete_loop io filename (nodes s) (disk s) [] (md_lookup (metadata s) filename) of
              (DeleteSuccess, d, tr) \<Rightarrow>
                (DeleteSuccess, tr, s\<lparr>metadata := md_erase filename (metadata s), disk := d\<rparr>)
            | (r, d, tr) \<Rightarrow> (r, tr, s\<lparr>disk := d\<rparr>)))"

subsubsection \<open>checkReplicaHealth, failNode, recoverNode\<close>

fun count_active :: "node list \<Rightarrow> int list \<Rightarrow> int \<Rightarrow> int option" where
  "count_active nds [] activeCount = Some activeCount"
| "count_active nds (i # rest) activeCount =
     (case node_at nds i of
        None \<Rightarrow> None
      | Some nd \<Rightarrow> count_active nds rest (if active nd then activeCount + 1 else activeCount))"

fun health_loop :: "node list \<Rightarrow> directory \<Rightarrow> warning list option" where
  "health_loop nds [] = Some []"
| "health_loop nds ((file, nodeList) # rest) =
     (case count_active nds nodeList 0 of
        None \<Rightarrow> None
      | Some activeCount \<Rightarrow>
          (case health_loop nds rest of
             None \<Rightarrow> None
           | Some ws \<Rightarrow>
               Some (if activeCount < 2 then LowReplicaWarning file activeCount # ws else ws)))"

definition checkReplicaHealth :: "state \<Rightarrow> warning list option" where
  "checkReplicaHealth s = health_loop (nodes s) (metadata s)"

definition failNode :: "int \<Rightarrow> state \<Rightarrow> report \<times> state" where
  "failNode i s =
     (if i < 1 \<or> i > int (length (nodes s)) then (NodeNotFound i, s)
      else (let s' = s\<lparr>nodes := (nodes s)[nat (i - 1) := fail (nodes s ! nat (i - 1))]\<rparr>
            in (case checkReplicaHealth s' of
                  None \<Rightarrow> (OutOfRange, s')
                | Some ws \<Rightarrow> (NodeFailed i ws, s'))))"

definition recoverNode :: "int \<Rightarrow> state \<Rightarrow> report \<times> state" where
  "recoverNode i s =
     (if i < 1 \<or> i > int (length (nodes s)) then (NodeNotFound i, s)
      else (let s' = s\<lparr>nodes := (nodes s)[nat (i - 1) := recover (nodes s ! nat (i - 1))]\<rparr>
            in (case checkReplicaHealth s' of
                  None \<Rightarrow> (OutOfRange, s')
                | Some ws \<Rightarrow> (NodeRecovered i ws, s'))))"

section \<open>Vocabulary of the statements\<close>

text \<open>
  \<open>id_ok\<close>: the id names a node of the vector. \<open>is_active\<close>: the node of that id
  is active. \<open>active_count\<close>: how many ids of a replica list name active nodes.
  \<open>active_ids\<close>: the ids of the active nodes, in the order of the vector.
\<close>

definition id_ok :: "node list \<Rightarrow> int \<Rightarrow> bool" where
  "id_ok nds i = (1 \<le> i \<and> i \<le> int (length nds))"

definition is_active :: "node list \<Rightarrow> int \<Rightarrow> bool" where
  "is_active nds i = (case node_at nds i of None \<Rightarrow> False | Some nd \<Rightarrow> active nd)"

definition active_count :: "node list \<Rightarrow> int list \<Rightarrow> int" where
  "active_count nds ns = int (length (filter (is_active nds) ns))"

definition active_ids :: "node list \<Rightarrow> int list" where
  "active_ids nds = map node_id (filter active nds)"

text \<open>\<open>copies ds filename ids\<close>: what stores of \<open>filename\<close> on the nodes \<open>ids\<close>
  write when they return.\<close>

definition copies :: "string set \<Rightarrow> string \<Rightarrow> int list \<Rightarrow> store" where
  "copies ds filename ids = (if filename \<in> ds then {} else (\<lambda>i. (i, filename)) ` set ids)"

text \<open>
  \<open>ids_valid\<close>: every id recorded in the metadata names a node.
  \<open>nodes_wf\<close>: the vector is as the constructor built it, the node at position
  \<open>j\<close> (from 0) has id \<open>j + 1\<close>; \<open>failNode\<close> and \<open>recoverNode\<close> change the flags
  only.
\<close>

definition ids_valid :: "state \<Rightarrow> bool" where
  "ids_valid s = (\<forall>e \<in> set (metadata s). \<forall>i \<in> set (snd e). id_ok (nodes s) i)"

definition nodes_wf :: "node list \<Rightarrow> bool" where
  "nodes_wf nds = (map node_id nds = [1..int (length nds)])"

subsection \<open>The states the program reaches\<close>

text \<open>
  A run of \<^verbatim>\<open>main\<close> constructs the coordinator and then executes commands. The
  files of the node directories and of the working directory may also be changed from
  outside between two commands (\<open>outside\<close>). \<^verbatim>\<open>list\<close> and \<^verbatim>\<open>nodes\<close>
  only print. \<open>invariant\<close> is what every such state satisfies: the vector is as
  constructed, the recorded ids name nodes, and the keys of the metadata are strictly
  ascending, as the keys of a \<^verbatim>\<open>std::map\<close> are.
\<close>

inductive reachable :: "state \<Rightarrow> bool" where
  init: "reachable (DistributedFS totalNodes d c ds)"
| upload: "reachable s \<Longrightarrow> reachable (snd (snd (upload io filename s)))"
| download: "reachable s \<Longrightarrow> reachable (snd (snd (download io filename s)))"
| deleteFile: "reachable s \<Longrightarrow> reachable (snd (snd (deleteFile io filename s)))"
| failNode: "reachable s \<Longrightarrow> reachable (snd (failNode i s))"
| recoverNode: "reachable s \<Longrightarrow> reachable (snd (recoverNode i s))"
| outside: "reachable s \<Longrightarrow> reachable (s\<lparr>disk := d, cwd := c, dirs := ds\<rparr>)"

definition invariant :: "state \<Rightarrow> bool" where
  "invariant s = (nodes_wf (nodes s) \<and> ids_valid s \<and> sorted_wrt (<) (map fst (metadata s)))"

subsection \<open>Example states\<close>

text \<open>
  \<open>no_faults\<close>: no file system call throws for outside reasons.
  \<open>faults_on cs\<close>: exactly the calls of \<open>cs\<close> throw.
\<close>

definition no_faults :: faults where
  "no_faults = (\<lambda>c. False)"

definition faults_on :: "io_call list \<Rightarrow> faults" where
  "faults_on cs = (\<lambda>c. c \<in> set cs)"

text \<open>
  \<open>node_dirs4\<close>: the names of the four node directories, which the constructor
  creates in the working directory.
  \<open>cluster4\<close>: the cluster of \<^verbatim>\<open>main\<close>, four nodes, with a regular file
  \<^verbatim>\<open>a.txt\<close> in the working directory.
  \<open>cluster4_a\<close>: that cluster after \<^verbatim>\<open>upload a.txt\<close>.
  \<open>cluster4_a_down failed\<close>: \<open>cluster4_a\<close> with the nodes of the ids \<open>failed\<close>
  inactive.
  \<open>cluster4_213\<close>: four nodes, node 2 inactive, and a file recorded on the nodes
  2, 1, 3 in that order (\<open>upload\<close> records ascending ids, so no run reaches this
  state; \<open>download\<close> is defined on it all the same).
  \<open>cluster4_mydir\<close>: \<open>cluster4_a\<close> with the nodes 1 and 2 inactive and a
  directory \<^verbatim>\<open>mydir\<close> in the working directory.
\<close>

definition node_dirs4 :: "string set" where
  "node_dirs4 = {''node_1'', ''node_2'', ''node_3'', ''node_4''}"

definition cluster4 :: state where
  "cluster4 = DistributedFS 4 {} (insert ''a.txt'' node_dirs4) node_dirs4"

definition cluster4_a :: state where
  "cluster4_a =
     \<lparr>nodes = [\<lparr>node_id = 1, active = True\<rparr>, \<lparr>node_id = 2, active = True\<rparr>,
               \<lparr>node_id = 3, active = True\<rparr>, \<lparr>node_id = 4, active = True\<rparr>],
      metadata = [(''a.txt'', [1, 2, 3])],
      disk = {(1, ''a.txt''), (2, ''a.txt''), (3, ''a.txt'')},
      cwd = insert ''a.txt'' node_dirs4, dirs = node_dirs4\<rparr>"

definition cluster4_a_down :: "int list \<Rightarrow> state" where
  "cluster4_a_down failed =
     cluster4_a\<lparr>nodes := map (\<lambda>nd. nd\<lparr>active := node_id nd \<notin> set failed\<rparr>) (nodes cluster4_a)\<rparr>"

definition cluster4_mydir :: state where
  "cluster4_mydir =
     (cluster4_a_down [1, 2])\<lparr>cwd := insert ''mydir'' (cwd cluster4_a),
                                dirs := insert ''mydir'' node_dirs4\<rparr>"

definition cluster4_213 :: state where
  "cluster4_213 =
     \<lparr>nodes = [\<lparr>node_id = 1, active = True\<rparr>, \<lparr>node_id = 2, active = False\<rparr>,
               \<lparr>node_id = 3, active = True\<rparr>, \<lparr>node_id = 4, active = True\<rparr>],
      metadata = [(''a.txt'', [2, 1, 3])],
      disk = {(1, ''a.txt''), (2, ''a.txt''), (3, ''a.txt'')},
      cwd = node_dirs4, dirs = node_dirs4\<rparr>"

section \<open>Properties\<close>

subsection \<open>Reading the node vector\<close>

lemma node_at_Some: "id_ok nds i \<Longrightarrow> node_at nds i = Some (nds ! nat (i - 1))"
  by (simp add: node_at_def id_ok_def)

lemma id_ok_update [simp]: "id_ok (nds[j := nd]) i = id_ok nds i"
  by (simp add: id_ok_def)

lemma is_active_node_at:
  "is_active nds n \<Longrightarrow> \<exists>nd. node_at nds n = Some nd \<and> active nd"
  by (auto simp: is_active_def split: option.splits)

lemma inactive_node_at:
  "id_ok nds i \<Longrightarrow> \<not> is_active nds i \<Longrightarrow> \<exists>nd. node_at nds i = Some nd \<and> \<not> active nd"
  by (simp add: is_active_def node_at_Some)

lemma ids_validD:
  "ids_valid s \<Longrightarrow> map_of (metadata s) k = Some ns \<Longrightarrow> i \<in> set ns \<Longrightarrow> id_ok (nodes s) i"
  by (auto simp: ids_valid_def dest!: map_of_SomeD)

lemma md_lookup_valid:
  "ids_valid s \<Longrightarrow> md_count (metadata s) f \<Longrightarrow>
   \<forall>i \<in> set (md_lookup (metadata s) f). id_ok (nodes s) i"
  by (auto simp: md_count_def md_lookup_def dest: ids_validD)

subsection \<open>The metadata map\<close>

lemma map_of_md_assign: "map_of (md_assign k v m) = (map_of m)(k \<mapsto> v)"
  by (induction m) (auto simp: fun_eq_iff)

lemma set_md_assign: "set (md_assign k v m) \<subseteq> insert (k, v) (set m)"
  by (induction m) (auto split: if_splits)

lemma keys_md_assign: "set (map fst (md_assign k v m)) = insert k (set (map fst m))"
proof (induction m)
  case Nil
  show ?case by simp
next
  case (Cons e m)
  obtain k' v' where e: "e = (k', v')" by (cases e)
  from Cons.IH have "fst ` set (md_assign k v m) = insert k (fst ` set m)" by simp
  then show ?case by (simp add: e insert_commute)
qed

lemma sorted_md_assign:
  "sorted_wrt (<) (map fst m) \<Longrightarrow> sorted_wrt (<) (map fst (md_assign k v m))"
proof (induction m)
  case Nil
  show ?case by simp
next
  case (Cons e m)
  obtain k' v' where e: "e = (k', v')" by (cases e)
  from Cons.prems have s: "sorted_wrt (<) (map fst m)" and lt: "\<forall>x \<in> set (map fst m). k' < x"
    by (simp_all add: e)
  show ?case
  proof (cases "k = k'")
    case True
    with Cons.prems e show ?thesis by simp
  next
    case ne: False
    show ?thesis
    proof (cases "k < k'")
      case True
      with Cons.prems e ne show ?thesis by auto
    next
      case False
      with ne have "k' < k" by simp
      with lt have "\<forall>x \<in> set (map fst (md_assign k v m)). k' < x"
        unfolding keys_md_assign by simp
      with Cons.IH [OF s] e ne False show ?thesis by simp
    qed
  qed
qed

lemma sorted_md_erase:
  "sorted_wrt (<) (map fst m) \<Longrightarrow> sorted_wrt (<) (map fst (md_erase k m))"
proof -
  assume s: "sorted_wrt (<) (map fst m)"
  have "map fst (md_erase k m) = filter (\<lambda>x. x \<noteq> k) (map fst m)"
    by (simp add: md_erase_def filter_map comp_def)
  with sorted_wrt_filter [OF s] show ?thesis by simp
qed

subsection \<open>The node vector as constructed\<close>

lemma nodes_wf_init: "nodes_wf (map Node [1..n])"
proof -
  have "map node_id (map Node [1..n]) = [1..n]"
    by (simp add: Node_def comp_def)
  moreover have "[1..int (length (map Node [1..n]))] = [1..n]"
    by (cases "1 \<le> n") simp_all
  ultimately show ?thesis by (simp add: nodes_wf_def)
qed

lemma nodes_wf_nth:
  assumes "nodes_wf nds" and "j < length nds"
  shows "node_id (nds ! j) = 1 + int j"
proof -
  from assms(2) have "node_id (nds ! j) = map node_id nds ! j" by simp
  also have "\<dots> = [1..int (length nds)] ! j" using assms(1) by (simp add: nodes_wf_def)
  also have "\<dots> = 1 + int j" using assms(2) by (simp add: nth_upto)
  finally show ?thesis .
qed

lemma nodes_wf_id_ok: "nodes_wf nds \<Longrightarrow> nd \<in> set nds \<Longrightarrow> id_ok nds (node_id nd)"
proof -
  assume wf: "nodes_wf nds" and nd: "nd \<in> set nds"
  from nd have "node_id nd \<in> set (map node_id nds)" by simp
  with wf have "node_id nd \<in> set [1..int (length nds)]" by (simp add: nodes_wf_def)
  then show ?thesis by (simp add: id_ok_def)
qed

lemma nodes_wf_update:
  assumes "nodes_wf nds" and "node_id nd = node_id (nds ! j)"
  shows "nodes_wf (nds[j := nd])"
proof -
  have "map node_id (nds[j := nd]) = (map node_id nds)[j := node_id (nds ! j)]"
    using assms(2) by (simp add: map_update)
  also have "\<dots> = map node_id nds"
    by (cases "j < length nds") (simp_all add: list_update_same_conv list_update_beyond)
  finally show ?thesis using assms(1) by (simp add: nodes_wf_def)
qed

lemma nodes_wf_is_active:
  assumes wf: "nodes_wf nds" and nd: "nd \<in> set nds"
  shows "is_active nds (node_id nd) = active nd"
proof -
  from nd obtain j where j: "j < length nds" "nds ! j = nd" by (auto simp: in_set_conv_nth)
  from nodes_wf_nth [OF wf j(1)] j(2) have i: "node_id nd = 1 + int j" by simp
  from j(1) have "node_at nds (1 + int j) = Some (nds ! j)" by (simp add: node_at_def)
  with i j(2) show ?thesis by (simp add: is_active_def)
qed

lemma active_ids_simps [simp]:
  "active_ids [] = []"
  "active nd \<Longrightarrow> active_ids (nd # rest) = node_id nd # active_ids rest"
  "\<not> active nd \<Longrightarrow> active_ids (nd # rest) = active_ids rest"
  by (simp_all add: active_ids_def)

lemma nodes_wf_active_ids:
  assumes wf: "nodes_wf nds"
  shows "active_ids nds = filter (is_active nds) [1..int (length nds)]"
proof -
  have "filter active nds = filter (is_active nds \<circ> node_id) nds"
    by (rule filter_cong) (simp_all add: nodes_wf_is_active [OF wf])
  then have "active_ids nds = filter (is_active nds) (map node_id nds)"
    by (simp add: active_ids_def filter_map)
  with wf show ?thesis by (simp add: nodes_wf_def)
qed

lemma nodes_wf_active_ids_sorted:
  assumes wf: "nodes_wf nds"
  shows "sorted_wrt (<) (active_ids nds)"
proof -
  have "sorted_wrt (<) [1..int (length nds)]" by (simp add: sorted_wrt_upto)
  then show ?thesis unfolding nodes_wf_active_ids [OF wf] by (rule sorted_wrt_filter)
qed

lemma is_active_in_active_ids:
  assumes wf: "nodes_wf nds"
  shows "j \<in> set (active_ids nds) \<longleftrightarrow> is_active nds j"
proof -
  have "is_active nds j \<Longrightarrow> 1 \<le> j \<and> j \<le> int (length nds)"
    by (simp add: is_active_def node_at_def split: if_splits)
  then show ?thesis unfolding nodes_wf_active_ids [OF wf] by auto
qed

subsection \<open>The loops in closed form\<close>

lemma count_active_eq:
  "\<forall>i \<in> set ns. id_ok nds i \<Longrightarrow> count_active nds ns c = Some (c + active_count nds ns)"
  by (induction ns arbitrary: c) (simp_all add: active_count_def is_active_def node_at_Some)

lemma health_loop_eq:
  "\<forall>e \<in> set m. \<forall>i \<in> set (snd e). id_ok nds i \<Longrightarrow>
   health_loop nds m =
     Some (map (\<lambda>e. LowReplicaWarning (fst e) (active_count nds (snd e)))
            (filter (\<lambda>e. active_count nds (snd e) < 2) m))"
proof (induction m)
  case Nil
  show ?case by simp
next
  case (Cons e m)
  obtain k ns where e: "e = (k, ns)" by (cases e)
  from Cons.prems have ns: "\<forall>i \<in> set ns. id_ok nds i" by (simp add: e)
  from Cons have IH: "health_loop nds m =
     Some (map (\<lambda>e. LowReplicaWarning (fst e) (active_count nds (snd e)))
            (filter (\<lambda>e. active_count nds (snd e) < 2) m))" by simp
  show ?case by (simp add: e count_active_eq [OF ns] IH)
qed

lemma checkReplicaHealth_eq:
  "ids_valid s \<Longrightarrow>
   checkReplicaHealth s =
     Some (map (\<lambda>e. LowReplicaWarning (fst e) (active_count (nodes s) (snd e)))
            (filter (\<lambda>e. active_count (nodes s) (snd e) < 2) (metadata s)))"
  unfolding checkReplicaHealth_def ids_valid_def by (rule health_loop_eq)

lemma download_loop_first_active:
  assumes "\<forall>i \<in> set pre. id_ok nds i \<and> \<not> is_active nds i" and "is_active nds n"
  shows "download_loop io f nds d (pre @ n # post) =
           (if io (Fetch n f) \<or> (n, f) \<notin> d then (ReplicationIOError, [Fetch n f])
            else (DownloadSuccess n, [Fetch n f]))"
  using assms
proof (induction pre)
  case Nil
  from is_active_node_at [OF Nil(2)] show ?case by auto
next
  case (Cons i pre)
  from Cons.prems have "id_ok nds i" "\<not> is_active nds i" by simp_all
  from inactive_node_at [OF this] obtain nd where "node_at nds i = Some nd" "\<not> active nd"
    by blast
  with Cons show ?case by simp
qed

lemma download_loop_none_active:
  assumes "\<forall>i \<in> set ns. id_ok nds i \<and> \<not> is_active nds i"
  shows "download_loop io f nds d ns = (AllReplicasUnavailable, [])"
  using assms
proof (induction ns)
  case Nil
  show ?case by simp
next
  case (Cons i ns)
  from Cons.prems have "id_ok nds i" "\<not> is_active nds i" by simp_all
  from inactive_node_at [OF this] obtain nd where "node_at nds i = Some nd" "\<not> active nd"
    by blast
  with Cons show ?case by simp
qed

lemma download_loop_in_range:
  "\<forall>i \<in> set ns. id_ok nds i \<Longrightarrow> fst (download_loop io f nds d ns) \<noteq> OutOfRange"
  by (induction ns) (simp_all add: node_at_Some)

lemma delete_loop_all_removed:
  assumes "\<forall>i \<in> set ns. id_ok nds i \<and> \<not> io (Remove i f)"
  shows "delete_loop io f nds d tr ns =
           (DeleteSuccess, d - (\<lambda>i. (i, f)) ` set ns, tr @ map (\<lambda>i. Remove i f) ns)"
  using assms
proof (induction ns arbitrary: d tr)
  case Nil
  show ?case by simp
next
  case (Cons i ns)
  from Cons.prems have i: "node_at nds i = Some (nds ! nat (i - 1))" "\<not> io (Remove i f)"
    by (simp_all add: node_at_Some)
  from Cons.prems have "\<forall>i \<in> set ns. id_ok nds i \<and> \<not> io (Remove i f)" by simp
  from Cons.IH [OF this, of "d - {(i, f)}" "tr @ [Remove i f]"] i
  have "delete_loop io f nds d tr (i # ns) =
          (DeleteSuccess, d - {(i, f)} - (\<lambda>i. (i, f)) ` set ns,
           tr @ map (\<lambda>i. Remove i f) (i # ns))" by simp
  moreover have "d - {(i, f)} - (\<lambda>i. (i, f)) ` set ns = d - (\<lambda>i. (i, f)) ` set (i # ns)"
    by auto
  ultimately show ?case by simp
qed

lemma delete_loop_stops:
  assumes "\<forall>i \<in> set pre. id_ok nds i \<and> \<not> io (Remove i f)"
    and "id_ok nds b" and "io (Remove b f)"
  shows "delete_loop io f nds d tr (pre @ b # post) =
           (ReplicationIOError, d - (\<lambda>i. (i, f)) ` set pre,
            tr @ map (\<lambda>i. Remove i f) pre @ [Remove b f])"
  using assms
proof (induction pre arbitrary: d tr)
  case Nil
  then show ?case by (simp add: node_at_Some)
next
  case (Cons i pre)
  from Cons.prems have i: "node_at nds i = Some (nds ! nat (i - 1))" "\<not> io (Remove i f)"
    by (simp_all add: node_at_Some)
  from Cons.prems have "\<forall>i \<in> set pre. id_ok nds i \<and> \<not> io (Remove i f)" by simp
  from Cons.IH [OF this Cons.prems(2,3), of "d - {(i, f)}" "tr @ [Remove i f]"] i
  have "delete_loop io f nds d tr ((i # pre) @ b # post) =
          (ReplicationIOError, d - {(i, f)} - (\<lambda>i. (i, f)) ` set pre,
           tr @ map (\<lambda>i. Remove i f) (i # pre) @ [Remove b f])" by simp
  moreover have "d - {(i, f)} - (\<lambda>i. (i, f)) ` set pre = d - (\<lambda>i. (i, f)) ` set (i # pre)"
    by auto
  ultimately show ?case by simp
qed

lemma delete_loop_in_range:
  "\<forall>i \<in> set ns. id_ok nds i \<Longrightarrow> fst (delete_loop io f nds d tr ns) \<noteq> OutOfRange"
  by (induction ns arbitrary: d tr) (simp_all add: node_at_Some)

lemma copies_Nil [simp]: "copies ds f [] = {}"
  by (simp add: copies_def)

lemma written_copies: "written ds i f d \<union> copies ds f ids = d \<union> copies ds f (i # ids)"
  by (auto simp: written_def copies_def)

lemma written_eq_copies: "written ds i f d = d \<union> copies ds f [i]"
  by (auto simp: written_def copies_def)

lemma upload_loop_stores_all:
  assumes "int k = REPLICATION - rep" and "0 < k"
    and "\<forall>i \<in> set (take k (active_ids nds)). \<not> io (Store i f)"
  shows "upload_loop io ds f nds d tr used rep =
           (Some (used @ take k (active_ids nds), rep + int (length (take k (active_ids nds)))),
            d \<union> copies ds f (take k (active_ids nds)),
            tr @ map (\<lambda>i. Store i f) (take k (active_ids nds)))"
  using assms
proof (induction nds arbitrary: d tr used rep k)
  case Nil
  show ?case by simp
next
  case (Cons nd rest)
  from Cons.prems(2) obtain k' where k: "k = Suc k'" by (cases k) simp_all
  show ?case
  proof (cases "active nd")
    case False
    from Cons.prems(1,2) have ne: "rep \<noteq> REPLICATION" by simp
    from Cons.prems(3) False
    have "\<forall>i \<in> set (take k (active_ids rest)). \<not> io (Store i f)" by simp
    from Cons.IH [OF Cons.prems(1,2) this] False ne show ?thesis by simp
  next
    case True
    from Cons.prems(3) True k have ok: "\<not> io (Store (node_id nd) f)" by simp
    show ?thesis
    proof (cases "k' = 0")
      case True
      with k Cons.prems(1) have "rep + 1 = REPLICATION" by simp
      with \<open>active nd\<close> ok k True show ?thesis by (simp add: written_eq_copies)
    next
      case False
      with k Cons.prems(1) have ne: "rep + 1 \<noteq> REPLICATION"
        and k1: "int k' = REPLICATION - (rep + 1)" and k2: "0 < k'" by simp_all
      from Cons.prems(3) \<open>active nd\<close> k
      have "\<forall>i \<in> set (take k' (active_ids rest)). \<not> io (Store i f)" by simp
      from Cons.IH [OF k1 k2 this] \<open>active nd\<close> ok ne k show ?thesis
        by (simp add: written_copies)
    qed
  qed
qed

lemma upload_loop_throws:
  assumes "int k = REPLICATION - rep" and "0 < k"
    and "take k (active_ids nds) = pre @ b # post"
    and "\<forall>i \<in> set pre. \<not> io (Store i f)" and "io (Store b f)"
  shows "upload_loop io ds f nds d tr used rep =
           (None, d \<union> copies ds f pre, tr @ map (\<lambda>i. Store i f) pre @ [Store b f])"
  using assms
proof (induction nds arbitrary: d tr used rep k pre)
  case Nil
  then show ?case by simp
next
  case (Cons nd rest)
  from Cons.prems(2) obtain k' where k: "k = Suc k'" by (cases k) simp_all
  show ?case
  proof (cases "active nd")
    case False
    from Cons.prems(1,2) have ne: "rep \<noteq> REPLICATION" by simp
    from Cons.prems(3) False have "take k (active_ids rest) = pre @ b # post" by simp
    from Cons.IH [OF Cons.prems(1,2) this Cons.prems(4,5)] False ne show ?thesis by simp
  next
    case True
    with Cons.prems(3) k
    have t: "node_id nd # take k' (active_ids rest) = pre @ b # post" by simp
    show ?thesis
    proof (cases "pre = []")
      case True
      with t have "b = node_id nd" by simp
      with Cons.prems(5) \<open>active nd\<close> True show ?thesis by simp
    next
      case False
      then obtain p pre' where pre: "pre = p # pre'" by (cases pre) simp_all
      with t have p: "p = node_id nd" and t': "take k' (active_ids rest) = pre' @ b # post"
        by simp_all
      from t' have k2: "0 < k'" by (cases k') simp_all
      with k Cons.prems(1) have ne: "rep + 1 \<noteq> REPLICATION"
        and k1: "int k' = REPLICATION - (rep + 1)" by simp_all
      from Cons.prems(4) pre p have ok: "\<not> io (Store (node_id nd) f)"
        and pre': "\<forall>i \<in> set pre'. \<not> io (Store i f)" by simp_all
      from Cons.IH [OF k1 k2 t' pre' Cons.prems(5)] \<open>active nd\<close> ok ne pre p
      show ?thesis by (simp add: written_copies)
    qed
  qed
qed

lemma upload_loop_used:
  "upload_loop io ds f nds d tr used rep = (Some (used', rep'), d', tr') \<Longrightarrow>
   set used' \<subseteq> set used \<union> node_id ` set nds"
proof (induction nds arbitrary: d tr used rep)
  case Nil
  then show ?case by simp
next
  case (Cons nd rest)
  show ?case
  proof (cases "active nd")
    case False
    show ?thesis
    proof (cases "rep = REPLICATION")
      case True
      with Cons.prems False show ?thesis by auto
    next
      case ne: False
      with Cons.prems False
      have "upload_loop io ds f rest d tr used rep = (Some (used', rep'), d', tr')" by simp
      from Cons.IH [OF this] show ?thesis by auto
    qed
  next
    case True
    show ?thesis
    proof (cases "io (Store (node_id nd) f)")
      case True
      with Cons.prems \<open>active nd\<close> show ?thesis by simp
    next
      case ok: False
      show ?thesis
      proof (cases "rep + 1 = REPLICATION")
        case True
        with Cons.prems \<open>active nd\<close> ok show ?thesis by auto
      next
        case False
        with Cons.prems \<open>active nd\<close> ok
        have "upload_loop io ds f rest (written ds (node_id nd) f d) (tr @ [Store (node_id nd) f])
                (used @ [node_id nd]) (rep + 1) = (Some (used', rep'), d', tr')" by simp
        from Cons.IH [OF this] show ?thesis by auto
      qed
    qed
  qed
qed

subsection \<open>The operations in closed form\<close>

lemma failNode_eq:
  assumes "id_ok (nodes s) x" "ids_valid s"
  shows "\<exists>ws. failNode x s =
           (NodeFailed x ws, s\<lparr>nodes := (nodes s)[nat (x - 1) := fail (nodes s ! nat (x - 1))]\<rparr>)"
proof -
  let ?s' = "s\<lparr>nodes := (nodes s)[nat (x - 1) := fail (nodes s ! nat (x - 1))]\<rparr>"
  have "ids_valid ?s'" using assms(2) by (simp add: ids_valid_def)
  then obtain ws where "checkReplicaHealth ?s' = Some ws"
    by (simp add: checkReplicaHealth_eq)
  with assms(1) show ?thesis by (simp add: failNode_def id_ok_def Let_def)
qed

lemma recoverNode_eq:
  assumes "id_ok (nodes s) x" "ids_valid s"
  shows "\<exists>ws. recoverNode x s =
           (NodeRecovered x ws,
            s\<lparr>nodes := (nodes s)[nat (x - 1) := recover (nodes s ! nat (x - 1))]\<rparr>)"
proof -
  let ?s' = "s\<lparr>nodes := (nodes s)[nat (x - 1) := recover (nodes s ! nat (x - 1))]\<rparr>"
  have "ids_valid ?s'" using assms(2) by (simp add: ids_valid_def)
  then obtain ws where "checkReplicaHealth ?s' = Some ws"
    by (simp add: checkReplicaHealth_eq)
  with assms(1) show ?thesis by (simp add: recoverNode_def id_ok_def Let_def)
qed

lemma download_eq:
  assumes v: "ids_valid s" and m: "map_of (metadata s) key = Some (pre @ n # post)"
    and pre: "\<forall>i \<in> set pre. \<not> is_active (nodes s) i" and n: "is_active (nodes s) n"
  shows "download io key s =
           (if io (Fetch n key) \<or> (n, key) \<notin> disk s
            then (ReplicationIOError, [Fetch n key], s)
            else (DownloadSuccess n, [Fetch n key],
                  s\<lparr>cwd := insert (''downloaded_'' @ key) (cwd s)\<rparr>))"
proof -
  have "\<forall>i \<in> set pre. id_ok (nodes s) i \<and> \<not> is_active (nodes s) i"
    using pre ids_validD [OF v m] by simp
  from download_loop_first_active [OF this n]
  show ?thesis using m by (simp add: download_def md_count_def md_lookup_def)
qed

lemma download_in_range:
  assumes "ids_valid s"
  shows "fst (download io f s) \<noteq> OutOfRange"
proof (cases "md_count (metadata s) f")
  case False
  then show ?thesis by (simp add: download_def)
next
  case True
  from download_loop_in_range [OF md_lookup_valid [OF assms True], of io f "disk s"] True
  show ?thesis by (auto simp: download_def split: prod.splits report.splits)
qed

lemma deleteFile_in_range:
  assumes "ids_valid s"
  shows "fst (deleteFile io f s) \<noteq> OutOfRange"
proof (cases "md_count (metadata s) f")
  case False
  then show ?thesis by (simp add: deleteFile_def)
next
  case True
  from delete_loop_in_range [OF md_lookup_valid [OF assms True], of io f "disk s" "[]"] True
  show ?thesis by (auto simp: deleteFile_def split: prod.splits report.splits)
qed

lemma REPLICATION_start: "int 3 = REPLICATION - 0" "0 < (3::nat)"
  by (simp_all add: REPLICATION_def)

lemma upload_success_eq:
  assumes src: "key \<in> cwd s" and three: "3 \<le> length (active_ids (nodes s))"
    and ok: "\<forall>i \<in> set (take 3 (active_ids (nodes s))). \<not> io (Store i key)"
  shows "upload io key s =
           (UploadSuccess (take 3 (active_ids (nodes s))),
            map (\<lambda>i. Store i key) (take 3 (active_ids (nodes s))),
            s\<lparr>metadata := md_assign key (take 3 (active_ids (nodes s))) (metadata s),
              disk := disk s \<union> copies (dirs s) key (take 3 (active_ids (nodes s)))\<rparr>)"
proof -
  from three have "length (take 3 (active_ids (nodes s))) = 3" by simp
  with upload_loop_stores_all [OF REPLICATION_start ok, of "dirs s" "disk s" "[]" "[]"] src
  show ?thesis by (simp add: upload_def REPLICATION_def)
qed

lemma upload_insufficient_eq:
  assumes src: "key \<in> cwd s" and few: "length (active_ids (nodes s)) < 3"
    and ok: "\<forall>i \<in> set (active_ids (nodes s)). \<not> io (Store i key)"
  shows "upload io key s =
           (InsufficientReplicas, map (\<lambda>i. Store i key) (active_ids (nodes s)),
            s\<lparr>disk := disk s \<union> copies (dirs s) key (active_ids (nodes s))\<rparr>)"
proof -
  from few have t: "take 3 (active_ids (nodes s)) = active_ids (nodes s)" by simp
  from ok t have "\<forall>i \<in> set (take 3 (active_ids (nodes s))). \<not> io (Store i key)" by simp
  from upload_loop_stores_all [OF REPLICATION_start this, of "dirs s" "disk s" "[]" "[]"] src few t
  show ?thesis by (simp add: upload_def REPLICATION_def)
qed

lemma upload_throws_eq:
  assumes src: "key \<in> cwd s" and sp: "take 3 (active_ids (nodes s)) = pre @ b # post"
    and ok: "\<forall>i \<in> set pre. \<not> io (Store i key)" and bad: "io (Store b key)"
  shows "upload io key s =
           (ReplicationIOError, map (\<lambda>i. Store i key) pre @ [Store b key],
            s\<lparr>disk := disk s \<union> copies (dirs s) key pre\<rparr>)"
  using upload_loop_throws [OF REPLICATION_start sp ok bad, of "dirs s" "disk s" "[]" "[]"] src
  by (simp add: upload_def)

lemma first_fault:
  assumes "\<not> (\<forall>i \<in> set xs. \<not> io (Store i key))"
  shows "\<exists>pre b post. xs = pre @ b # post \<and> (\<forall>i \<in> set pre. \<not> io (Store i key)) \<and>
           io (Store b key)"
proof -
  from assms have "\<exists>i \<in> set xs. io (Store i key)" by simp
  from split_list_first_prop [OF this] show ?thesis by blast
qed

lemma upload_frame:
  "nodes (snd (snd (upload io f s))) = nodes s"
  by (simp add: upload_def split: prod.splits option.splits)

lemma upload_metadata:
  "metadata (snd (snd (upload io f s))) = metadata s \<or>
   (\<exists>used. set used \<subseteq> node_id ` set (nodes s) \<and>
      metadata (snd (snd (upload io f s))) = md_assign f used (metadata s))"
proof (cases "upload_loop io (dirs s) f (nodes s) (disk s) [] [] 0")
  case (fields r d tr)
  show ?thesis
  proof (cases r)
    case None
    with fields show ?thesis by (simp add: upload_def)
  next
    case (Some p)
    obtain used rep where p: "p = (used, rep)" by (cases p)
    from upload_loop_used [of io "dirs s" f "nodes s" "disk s" "[]" "[]" 0 used rep d tr] fields Some p
    have "set used \<subseteq> node_id ` set (nodes s)" by simp
    with fields Some p show ?thesis by (auto simp: upload_def)
  qed
qed

subsection \<open>The example states are states of the program\<close>

lemma node_dirs4_simps [simp]:
  "''a.txt'' \<notin> node_dirs4" "''b.txt'' \<notin> node_dirs4" "''mydir'' \<notin> node_dirs4"
  "''downloaded_a.txt'' \<notin> node_dirs4"
  by (simp_all add: node_dirs4_def)

lemma cluster4_nodes:
  "nodes cluster4 = [\<lparr>node_id = 1, active = True\<rparr>, \<lparr>node_id = 2, active = True\<rparr>,
                     \<lparr>node_id = 3, active = True\<rparr>, \<lparr>node_id = 4, active = True\<rparr>]"
  by (simp add: cluster4_def DistributedFS_def Node_def upto.simps)

lemma upload_cluster4:
  "upload no_faults ''a.txt'' cluster4 =
     (UploadSuccess [1, 2, 3], [Store 1 ''a.txt'', Store 2 ''a.txt'', Store 3 ''a.txt''],
      cluster4_a)"
  by (simp add: cluster4_a_def cluster4_def no_faults_def upload_def DistributedFS_def
      Node_def REPLICATION_def upto.simps insert_commute written_def)

lemma failNode_cluster4_a:
  "failNode 1 cluster4_a = (NodeFailed 1 [], cluster4_a_down [1])"
  by (simp add: failNode_def cluster4_a_def cluster4_a_down_def checkReplicaHealth_def
      node_at_def fail_def)

lemma failNode_cluster4_a_down:
  "failNode 2 (cluster4_a_down [1]) =
     (NodeFailed 2 [LowReplicaWarning ''a.txt'' 1], cluster4_a_down [1, 2])"
  by (simp add: failNode_def cluster4_a_def cluster4_a_down_def checkReplicaHealth_def
      node_at_def fail_def)

lemma reachable_cluster4_a: "reachable cluster4_a"
proof -
  have "reachable cluster4" unfolding cluster4_def by (rule reachable.init)
  from reachable.upload [OF this, of no_faults "''a.txt''"] show ?thesis
    by (simp add: upload_cluster4)
qed

lemma recoverNode_cluster4_a_down:
  "recoverNode 1 (cluster4_a_down [1, 2]) = (NodeRecovered 1 [], cluster4_a_down [2])"
  by (simp add: recoverNode_def cluster4_a_def cluster4_a_down_def checkReplicaHealth_def
      node_at_def recover_def)

lemma download_cluster4_a_down:
  "download no_faults ''a.txt'' (cluster4_a_down [1, 2]) =
     (DownloadSuccess 3, [Fetch 3 ''a.txt''],
      (cluster4_a_down [1, 2])\<lparr>cwd := insert ''downloaded_a.txt'' (cwd cluster4_a)\<rparr>)"
  by (simp add: download_def cluster4_a_def cluster4_a_down_def md_count_def md_lookup_def
      node_at_def no_faults_def)

lemma reachable_cluster4_a_down:
  "reachable (cluster4_a_down [1])" "reachable (cluster4_a_down [1, 2])"
proof -
  from reachable.failNode [OF reachable_cluster4_a, of 1]
  show 1: "reachable (cluster4_a_down [1])" by (simp add: failNode_cluster4_a)
  from reachable.failNode [OF 1, of 2]
  show "reachable (cluster4_a_down [1, 2])" by (simp add: failNode_cluster4_a_down)
qed

lemma reachable_cluster4_mydir: "reachable cluster4_mydir"
proof -
  have e: "cluster4_mydir =
          (cluster4_a_down [1, 2])\<lparr>disk := disk (cluster4_a_down [1, 2]),
            cwd := insert ''mydir'' (cwd cluster4_a), dirs := insert ''mydir'' node_dirs4\<rparr>"
    by (simp add: cluster4_mydir_def)
  show ?thesis unfolding e by (rule reachable.outside [OF reachable_cluster4_a_down(2)])
qed

subsection \<open>The invariant of the reachable states\<close>

lemma invariant_init: "invariant (DistributedFS n d c ds)"
  by (simp add: invariant_def DistributedFS_def nodes_wf_init ids_valid_def)

lemma invariant_upload:
  assumes "invariant s"
  shows "invariant (snd (snd (upload io f s)))"
proof -
  from assms have wf: "nodes_wf (nodes s)" and v: "ids_valid s"
    and so: "sorted_wrt (<) (map fst (metadata s))" by (simp_all add: invariant_def)
  let ?s' = "snd (snd (upload io f s))"
  have n: "nodes ?s' = nodes s" by (rule upload_frame)
  from upload_metadata [of io f s] show ?thesis
  proof
    assume "metadata ?s' = metadata s"
    with n wf v so show ?thesis by (simp add: invariant_def ids_valid_def)
  next
    assume "\<exists>used. set used \<subseteq> node_id ` set (nodes s) \<and>
      metadata ?s' = md_assign f used (metadata s)"
    then obtain used where u: "set used \<subseteq> node_id ` set (nodes s)"
      and m: "metadata ?s' = md_assign f used (metadata s)" by blast
    from u have uok: "\<forall>i \<in> set used. id_ok (nodes s) i"
      using nodes_wf_id_ok [OF wf] by auto
    have "ids_valid ?s'"
      unfolding ids_valid_def n m
    proof (intro ballI)
      fix e i assume e: "e \<in> set (md_assign f used (metadata s))" and i: "i \<in> set (snd e)"
      from e set_md_assign [of f used "metadata s"]
      have "e = (f, used) \<or> e \<in> set (metadata s)" by auto
      with i uok v show "id_ok (nodes s) i" by (auto simp: ids_valid_def)
    qed
    with n wf m sorted_md_assign [OF so] show ?thesis by (simp add: invariant_def)
  qed
qed

lemma invariant_download:
  "invariant s \<Longrightarrow> invariant (snd (snd (download io f s)))"
  by (auto simp: download_def invariant_def ids_valid_def split: prod.splits report.splits)

lemma invariant_deleteFile:
  assumes "invariant s"
  shows "invariant (snd (snd (deleteFile io f s)))"
proof -
  from assms have wf: "nodes_wf (nodes s)" and v: "ids_valid s"
    and so: "sorted_wrt (<) (map fst (metadata s))" by (simp_all add: invariant_def)
  have e: "invariant (s\<lparr>metadata := md_erase f (metadata s), disk := d\<rparr>)" for d
    using wf v sorted_md_erase [OF so]
    by (auto simp: invariant_def ids_valid_def md_erase_def)
  have k: "invariant (s\<lparr>disk := d\<rparr>)" for d
    using assms by (simp add: invariant_def ids_valid_def)
  show ?thesis
    using assms e k by (simp add: deleteFile_def split: prod.splits report.splits)
qed

lemma invariant_nodes_update:
  assumes "invariant s" and "node_id nd = node_id (nodes s ! j)"
  shows "invariant (s\<lparr>nodes := (nodes s)[j := nd]\<rparr>)"
  using assms nodes_wf_update [of "nodes s" nd j]
  by (simp add: invariant_def ids_valid_def)

lemma invariant_failNode: "invariant s \<Longrightarrow> invariant (snd (failNode i s))"
  by (simp add: failNode_def Let_def invariant_nodes_update fail_def split: option.splits)

lemma invariant_recoverNode: "invariant s \<Longrightarrow> invariant (snd (recoverNode i s))"
  by (simp add: recoverNode_def Let_def invariant_nodes_update recover_def split: option.splits)

lemma reachable_invariant: "reachable s \<Longrightarrow> invariant s"
proof (induction rule: reachable.induct)
  case (init totalNodes d c ds)
  show ?case by (rule invariant_init)
next
  case (upload s io filename)
  then show ?case by (simp add: invariant_upload)
next
  case (download s io filename)
  then show ?case by (simp add: invariant_download)
next
  case (deleteFile s io filename)
  then show ?case by (simp add: invariant_deleteFile)
next
  case (failNode s i)
  then show ?case by (simp add: invariant_failNode)
next
  case (recoverNode s i)
  then show ?case by (simp add: invariant_recoverNode)
next
  case (outside s d c ds)
  then show ?case by (simp add: invariant_def ids_valid_def)
qed

lemma reachable_hypotheses:
  assumes "reachable s"
  shows "nodes_wf (nodes s)" and "ids_valid s" and "distinct (map fst (metadata s))"
  using reachable_invariant [OF assms] by (simp_all add: invariant_def strict_sorted_iff)

lemma invariant_names_node:
  assumes "invariant s" and "e \<in> set (metadata s)" and "i \<in> set (snd e)"
  shows "1 \<le> i \<and> i \<le> int (length (nodes s)) \<and>
         (\<exists>nd. node_at (nodes s) i = Some nd \<and> node_id nd = i)"
proof -
  from assms have ok: "id_ok (nodes s) i" and wf: "nodes_wf (nodes s)"
    by (auto simp: invariant_def ids_valid_def)
  from ok have j: "nat (i - 1) < length (nodes s)" by (auto simp: id_ok_def)
  from nodes_wf_nth [OF wf j] ok have "node_id (nodes s ! nat (i - 1)) = i"
    by (simp add: id_ok_def)
  with ok show ?thesis by (simp add: node_at_Some) (simp add: id_ok_def)
qed

text \<open>
  Claim C8. In every state the program reaches, every id recorded in the metadata lies
  between 1 and the number of nodes and is the id of the node found at its place in the
  vector. The same holds of the state after \<open>upload\<close>, \<open>download\<close>,
  \<open>deleteFile\<close>, \<open>failNode\<close> and \<open>recoverNode\<close>; the health audit, which
  changes nothing, runs to its end, and neither \<open>download\<close> nor \<open>deleteFile\<close>
  reads outside the vector.
\<close>

theorem reachable_ids_name_nodes:
  assumes "reachable s"
  shows "(\<forall>e \<in> set (metadata s). \<forall>i \<in> set (snd e).
            1 \<le> i \<and> i \<le> int (length (nodes s)) \<and>
            (\<exists>nd. node_at (nodes s) i = Some nd \<and> node_id nd = i)) \<and>
         ids_valid (snd (snd (upload io f s))) \<and>
         ids_valid (snd (snd (download io f s))) \<and>
         ids_valid (snd (snd (deleteFile io f s))) \<and>
         ids_valid (snd (failNode x s)) \<and>
         ids_valid (snd (recoverNode x s)) \<and>
         checkReplicaHealth s \<noteq> None \<and>
         fst (download io f s) \<noteq> OutOfRange \<and>
         fst (deleteFile io f s) \<noteq> OutOfRange"
proof -
  from assms have i: "invariant s" by (rule reachable_invariant)
  then have v: "ids_valid s" by (simp add: invariant_def)
  have a: "\<forall>e \<in> set (metadata s). \<forall>i \<in> set (snd e).
            1 \<le> i \<and> i \<le> int (length (nodes s)) \<and>
            (\<exists>nd. node_at (nodes s) i = Some nd \<and> node_id nd = i)"
    using invariant_names_node [OF i] by blast
  have b: "ids_valid (snd (snd (upload io f s)))"
    using reachable_invariant [OF reachable.upload [OF assms]] by (simp add: invariant_def)
  have c: "ids_valid (snd (snd (download io f s)))"
    using reachable_invariant [OF reachable.download [OF assms]] by (simp add: invariant_def)
  have d: "ids_valid (snd (snd (deleteFile io f s)))"
    using reachable_invariant [OF reachable.deleteFile [OF assms]] by (simp add: invariant_def)
  have e: "ids_valid (snd (failNode x s))"
    using reachable_invariant [OF reachable.failNode [OF assms]] by (simp add: invariant_def)
  have g: "ids_valid (snd (recoverNode x s))"
    using reachable_invariant [OF reachable.recoverNode [OF assms]] by (simp add: invariant_def)
  have h: "checkReplicaHealth s \<noteq> None" by (simp add: checkReplicaHealth_eq [OF v])
  from a b c d e g h download_in_range [OF v] deleteFile_in_range [OF v]
  show ?thesis by simp
qed

theorem reachable_ids_name_nodes_witness:
  "reachable cluster4_a \<and> metadata cluster4_a = [(''a.txt'', [1, 2, 3])] \<and>
   length (nodes cluster4_a) = 4 \<and>
   ids_valid cluster4_a \<and>
   ids_valid (snd (snd (upload no_faults ''a.txt'' cluster4_a))) \<and>
   ids_valid (snd (snd (deleteFile no_faults ''a.txt'' cluster4_a))) \<and>
   ids_valid (snd (failNode 1 cluster4_a)) \<and>
   checkReplicaHealth cluster4_a \<noteq> None"
proof -
  have r: "reachable cluster4_a" by (rule reachable_cluster4_a)
  have m: "metadata cluster4_a = [(''a.txt'', [1, 2, 3])]" "length (nodes cluster4_a) = 4"
    by (simp_all add: cluster4_a_def)
  from reachable_ids_name_nodes [OF r, of no_faults "''a.txt''" 1]
  have "(\<forall>e \<in> set (metadata cluster4_a). \<forall>i \<in> set (snd e). id_ok (nodes cluster4_a) i) \<and>
   ids_valid (snd (snd (upload no_faults ''a.txt'' cluster4_a))) \<and>
   ids_valid (snd (snd (deleteFile no_faults ''a.txt'' cluster4_a))) \<and>
   ids_valid (snd (failNode 1 cluster4_a)) \<and>
   checkReplicaHealth cluster4_a \<noteq> None" by (simp add: id_ok_def)
  with r m show ?thesis by (simp add: ids_valid_def)
qed

subsection \<open>upload\<close>

text \<open>
  Claim C2. In a cluster as the constructor built it, when the source file exists, at
  least \<open>REPLICATION\<close> nodes are active and no store throws, the upload reports
  success with a list of ids that it commits to the metadata under the key; the list
  has \<open>REPLICATION\<close> ids, distinct and ascending, all of active nodes, and every
  other active node has an id above all of them.
\<close>

theorem upload_three_smallest_active:
  assumes wf: "nodes_wf (nodes s)" and src: "key \<in> cwd s"
    and enough: "REPLICATION \<le> int (length (filter active (nodes s)))"
    and ok: "\<forall>nd \<in> set (nodes s). \<not> io (Store (node_id nd) key)"
  shows "\<exists>ids. fst (upload io key s) = UploadSuccess ids \<and>
           map_of (metadata (snd (snd (upload io key s)))) key = Some ids \<and>
           int (length ids) = REPLICATION \<and> distinct ids \<and> sorted ids \<and>
           (\<forall>i \<in> set ids. is_active (nodes s) i) \<and>
           (\<forall>j. is_active (nodes s) j \<and> j \<notin> set ids \<longrightarrow> (\<forall>i \<in> set ids. i < j))"
proof -
  let ?act = "active_ids (nodes s)"
  let ?ids = "take 3 ?act"
  from enough have three: "3 \<le> length ?act" by (simp add: active_ids_def REPLICATION_def)
  from ok have ok': "\<forall>i \<in> set ?ids. \<not> io (Store i key)"
    by (auto simp: active_ids_def dest!: in_set_takeD)
  note e = upload_success_eq [OF src three ok']
  have r: "fst (upload io key s) = UploadSuccess ?ids" by (simp add: e)
  have m: "map_of (metadata (snd (snd (upload io key s)))) key = Some ?ids"
    by (simp add: e map_of_md_assign)
  have l: "int (length ?ids) = REPLICATION" using three by (simp add: REPLICATION_def)
  have st: "sorted_wrt (<) (?ids @ drop 3 ?act)"
    using nodes_wf_active_ids_sorted [OF wf] by simp
  then have st3: "sorted_wrt (<) ?ids" and lt: "\<forall>i \<in> set ?ids. \<forall>j \<in> set (drop 3 ?act). i < j"
    unfolding sorted_wrt_append by simp_all
  from st3 have d: "distinct ?ids" and so: "sorted ?ids"
    by (simp_all add: strict_sorted_iff)
  have a: "\<forall>i \<in> set ?ids. is_active (nodes s) i"
    using is_active_in_active_ids [OF wf] by (auto dest!: in_set_takeD)
  have sm: "\<forall>i \<in> set ?ids. i < j" if "is_active (nodes s) j \<and> j \<notin> set ?ids" for j
  proof -
    from that have "j \<in> set (?ids @ drop 3 ?act)"
      using is_active_in_active_ids [OF wf, of j] by simp
    with that have "j \<in> set (drop 3 ?act)" by (simp del: append_take_drop_id)
    with lt show ?thesis by simp
  qed
  from r m l d so a sm show ?thesis by blast
qed

theorem upload_three_smallest_active_witness:
  "nodes_wf (nodes cluster4) \<and> ''a.txt'' \<in> cwd cluster4 \<and>
   REPLICATION \<le> int (length (filter active (nodes cluster4))) \<and>
   (\<exists>ids. fst (upload no_faults ''a.txt'' cluster4) = UploadSuccess ids \<and>
      map_of (metadata (snd (snd (upload no_faults ''a.txt'' cluster4)))) ''a.txt'' = Some ids \<and>
      int (length ids) = REPLICATION \<and> distinct ids \<and> sorted ids \<and>
      (\<forall>i \<in> set ids. is_active (nodes cluster4) i) \<and>
      (\<forall>j. is_active (nodes cluster4) j \<and> j \<notin> set ids \<longrightarrow> (\<forall>i \<in> set ids. i < j))) \<and>
   fst (upload no_faults ''a.txt'' cluster4) = UploadSuccess [1, 2, 3]"
proof -
  have wf: "nodes_wf (nodes cluster4)" by (simp add: cluster4_nodes nodes_wf_def upto.simps)
  have src: "''a.txt'' \<in> cwd cluster4" by (simp add: cluster4_def DistributedFS_def)
  have enough: "REPLICATION \<le> int (length (filter active (nodes cluster4)))"
    by (simp add: cluster4_nodes REPLICATION_def)
  have ok: "\<forall>nd \<in> set (nodes cluster4). \<not> no_faults (Store (node_id nd) ''a.txt'')"
    by (simp add: no_faults_def)
  from upload_three_smallest_active [OF wf src enough ok] wf src enough
  show ?thesis by (simp add: upload_cluster4 REPLICATION_def)
qed

text \<open>
  Claim C3, as amended. When fewer than \<open>REPLICATION\<close> nodes are active, the upload
  leaves the metadata exactly as it was, whatever else happens; and when moreover the
  source file exists and no store on an active node throws, it reports
  \<open>InsufficientReplicas\<close>.
\<close>

theorem upload_few_active:
  assumes few: "int (length (filter active (nodes s))) < REPLICATION"
  shows "metadata (snd (snd (upload io key s))) = metadata s \<and>
         (key \<in> cwd s \<and> (\<forall>nd \<in> set (nodes s). active nd \<longrightarrow> \<not> io (Store (node_id nd) key)) \<longrightarrow>
            fst (upload io key s) = InsufficientReplicas)"
proof -
  from few have few': "length (active_ids (nodes s)) < 3"
    by (simp add: active_ids_def REPLICATION_def)
  then have t: "take 3 (active_ids (nodes s)) = active_ids (nodes s)" by simp
  have md: "metadata (snd (snd (upload io key s))) = metadata s"
  proof (cases "key \<in> cwd s")
    case False
    then show ?thesis by (simp add: upload_def)
  next
    case True
    show ?thesis
    proof (cases "\<forall>i \<in> set (active_ids (nodes s)). \<not> io (Store i key)")
      case True
      from upload_insufficient_eq [OF \<open>key \<in> cwd s\<close> few' True] show ?thesis by simp
    next
      case False
      from first_fault [OF False] obtain pre b post where
        "active_ids (nodes s) = pre @ b # post" "\<forall>i \<in> set pre. \<not> io (Store i key)"
        "io (Store b key)" by blast
      with t have "take 3 (active_ids (nodes s)) = pre @ b # post" by simp
      from upload_throws_eq [OF True this \<open>\<forall>i \<in> set pre. \<not> io (Store i key)\<close> \<open>io (Store b key)\<close>]
      show ?thesis by simp
    qed
  qed
  have rep: "fst (upload io key s) = InsufficientReplicas"
    if "key \<in> cwd s \<and> (\<forall>nd \<in> set (nodes s). active nd \<longrightarrow> \<not> io (Store (node_id nd) key))"
  proof -
    from that have "\<forall>i \<in> set (active_ids (nodes s)). \<not> io (Store i key)"
      by (auto simp: active_ids_def)
    from upload_insufficient_eq [OF _ few' this] that show ?thesis by simp
  qed
  from md rep show ?thesis by blast
qed

text \<open>
  The claim as stated fails: with two active nodes, an upload whose source file does not
  exist reports \<open>SourceNotFound\<close>, and an upload whose first store throws reports
  \<open>ReplicationIOError\<close>.
\<close>

theorem upload_few_active_counterexample:
  "int (length (filter active (nodes (cluster4_a_down [1, 2])))) < REPLICATION \<and>
   fst (upload no_faults ''b.txt'' (cluster4_a_down [1, 2])) = SourceNotFound \<and>
   fst (upload no_faults ''b.txt'' (cluster4_a_down [1, 2])) \<noteq> InsufficientReplicas \<and>
   fst (upload (faults_on [Store 3 ''a.txt'']) ''a.txt'' (cluster4_a_down [1, 2])) =
     ReplicationIOError \<and>
   fst (upload (faults_on [Store 3 ''a.txt'']) ''a.txt'' (cluster4_a_down [1, 2])) \<noteq>
     InsufficientReplicas"
  by (simp add: upload_def cluster4_a_down_def cluster4_a_def no_faults_def faults_on_def
      REPLICATION_def)

theorem upload_few_active_witness:
  "int (length (filter active (nodes (cluster4_a_down [1, 2])))) < REPLICATION \<and>
   ''a.txt'' \<in> cwd (cluster4_a_down [1, 2]) \<and>
   metadata (snd (snd (upload no_faults ''a.txt'' (cluster4_a_down [1, 2])))) =
     metadata (cluster4_a_down [1, 2]) \<and>
   fst (upload no_faults ''a.txt'' (cluster4_a_down [1, 2])) = InsufficientReplicas"
proof -
  have few: "int (length (filter active (nodes (cluster4_a_down [1, 2])))) < REPLICATION"
    by (simp add: cluster4_a_down_def cluster4_a_def REPLICATION_def)
  have src: "''a.txt'' \<in> cwd (cluster4_a_down [1, 2])"
    by (simp add: cluster4_a_down_def cluster4_a_def)
  from upload_few_active [OF few, of no_faults "''a.txt''"] few src
  show ?thesis by (simp add: no_faults_def)
qed

text \<open>
  Claim C5. The upload stores on the first \<open>REPLICATION\<close> active nodes in turn. When
  the store on \<open>b\<close> is the first that throws, after the stores on \<open>pre\<close>
  returned, the upload reports \<open>ReplicationIOError\<close>; the calls it made are those
  stores, ending with the one that threw, and nothing else (no removal); the metadata
  are as before; nothing that was on the disk is gone; and when the source is a regular
  file, the copies written on the nodes \<open>pre\<close> are on the disk. (For a source that
  is a directory the stores that returned wrote nothing, so there is no copy to keep.)
\<close>

theorem upload_aborts_on_io_failure:
  assumes src: "key \<in> cwd s"
    and sp: "take (nat REPLICATION) (map node_id (filter active (nodes s))) = pre @ b # post"
    and ok: "\<forall>i \<in> set pre. \<not> io (Store i key)" and bad: "io (Store b key)"
  shows "fst (upload io key s) = ReplicationIOError \<and>
         fst (snd (upload io key s)) = map (\<lambda>i. Store i key) pre @ [Store b key] \<and>
         metadata (snd (snd (upload io key s))) = metadata s \<and>
         disk s \<subseteq> disk (snd (snd (upload io key s))) \<and>
         (key \<notin> dirs s \<longrightarrow> (\<forall>i \<in> set pre. (i, key) \<in> disk (snd (snd (upload io key s)))))"
proof -
  from sp have "take 3 (active_ids (nodes s)) = pre @ b # post"
    by (simp add: REPLICATION_def active_ids_def)
  from upload_throws_eq [OF src this ok bad] show ?thesis by (auto simp: copies_def)
qed

theorem upload_aborts_on_io_failure_witness:
  "''a.txt'' \<in> cwd cluster4 \<and> ''a.txt'' \<notin> dirs cluster4 \<and>
   take (nat REPLICATION) (map node_id (filter active (nodes cluster4))) = [1] @ 2 # [3] \<and>
   \<not> faults_on [Store 2 ''a.txt''] (Store 1 ''a.txt'') \<and>
   faults_on [Store 2 ''a.txt''] (Store 2 ''a.txt'') \<and>
   fst (upload (faults_on [Store 2 ''a.txt'']) ''a.txt'' cluster4) = ReplicationIOError \<and>
   fst (snd (upload (faults_on [Store 2 ''a.txt'']) ''a.txt'' cluster4)) =
     [Store 1 ''a.txt'', Store 2 ''a.txt''] \<and>
   metadata (snd (snd (upload (faults_on [Store 2 ''a.txt'']) ''a.txt'' cluster4))) = [] \<and>
   (1, ''a.txt'') \<in> disk (snd (snd (upload (faults_on [Store 2 ''a.txt'']) ''a.txt'' cluster4)))"
proof -
  have src: "''a.txt'' \<in> cwd cluster4" "''a.txt'' \<notin> dirs cluster4"
    by (simp_all add: cluster4_def DistributedFS_def)
  have sp: "take (nat REPLICATION) (map node_id (filter active (nodes cluster4))) = [1] @ 2 # [3]"
    by (simp add: cluster4_nodes REPLICATION_def)
  have ok: "\<forall>i \<in> set [1]. \<not> faults_on [Store 2 ''a.txt''] (Store i ''a.txt'')"
    by (simp add: faults_on_def)
  have bad: "faults_on [Store 2 ''a.txt''] (Store 2 ''a.txt'')" by (simp add: faults_on_def)
  have d: "metadata cluster4 = []" by (simp add: cluster4_def DistributedFS_def)
  from upload_aborts_on_io_failure [OF src(1) sp ok bad] src sp ok bad d
  show ?thesis by simp
qed

text \<open>
  Claim C10, as amended. An upload with an existing source, fewer than \<open>REPLICATION\<close>
  active nodes and no store throwing reports \<open>InsufficientReplicas\<close>; the calls it
  made are the stores on the active nodes and nothing else; the metadata are exactly as
  before the call; nothing that was on the disk is gone; and when the source is a regular
  file, every active node holds a copy of it afterwards.
\<close>

theorem upload_rejected_leaves_copies:
  assumes src: "key \<in> cwd s" and few: "int (length (filter active (nodes s))) < REPLICATION"
    and ok: "\<forall>nd \<in> set (nodes s). active nd \<longrightarrow> \<not> io (Store (node_id nd) key)"
  shows "fst (upload io key s) = InsufficientReplicas \<and>
         fst (snd (upload io key s)) =
           map (\<lambda>i. Store i key) (map node_id (filter active (nodes s))) \<and>
         metadata (snd (snd (upload io key s))) = metadata s \<and>
         disk s \<subseteq> disk (snd (snd (upload io key s))) \<and>
         (key \<notin> dirs s \<longrightarrow>
            (\<forall>nd \<in> set (nodes s). active nd \<longrightarrow>
               (node_id nd, key) \<in> disk (snd (snd (upload io key s)))))"
proof -
  from few have few': "length (active_ids (nodes s)) < 3"
    by (simp add: active_ids_def REPLICATION_def)
  from ok have ok': "\<forall>i \<in> set (active_ids (nodes s)). \<not> io (Store i key)"
    by (auto simp: active_ids_def)
  note e = upload_insufficient_eq [OF src few' ok']
  have r: "fst (upload io key s) = InsufficientReplicas" by (simp add: e)
  have t: "fst (snd (upload io key s)) =
             map (\<lambda>i. Store i key) (map node_id (filter active (nodes s)))"
    by (simp add: e active_ids_def)
  have m: "metadata (snd (snd (upload io key s))) = metadata s" by (simp add: e)
  have sub: "disk s \<subseteq> disk (snd (snd (upload io key s)))" by (simp add: e)
  have c: "(node_id nd, key) \<in> disk (snd (snd (upload io key s)))"
    if "key \<notin> dirs s" and "nd \<in> set (nodes s)" and "active nd" for nd
    using that by (simp add: e copies_def active_ids_def)
  from r t m sub c show ?thesis by blast
qed

text \<open>
  The claim as stated fails in two places. When the key was uploaded before, the
  directory still has its entry after the rejected upload: \<^verbatim>\<open>a.txt\<close> was
  uploaded to the nodes 1, 2, 3, the nodes 1 and 2 failed, and \<^verbatim>\<open>a.txt\<close> is
  uploaded again. And when the source is a directory, the stores return without writing:
  after the rejected upload of \<^verbatim>\<open>mydir\<close> the active nodes 3 and 4 hold no copy.
\<close>

theorem upload_rejected_counterexample:
  "int (length (filter active (nodes (cluster4_a_down [1, 2])))) < REPLICATION \<and>
   fst (upload no_faults ''a.txt'' (cluster4_a_down [1, 2])) = InsufficientReplicas \<and>
   md_count (metadata (snd (snd (upload no_faults ''a.txt'' (cluster4_a_down [1, 2]))))) ''a.txt'' \<and>
   int (length (filter active (nodes cluster4_mydir))) < REPLICATION \<and>
   is_active (nodes cluster4_mydir) 3 \<and> is_active (nodes cluster4_mydir) 4 \<and>
   upload no_faults ''mydir'' cluster4_mydir =
     (InsufficientReplicas, [Store 3 ''mydir'', Store 4 ''mydir''], cluster4_mydir) \<and>
   (3, ''mydir'') \<notin> disk cluster4_mydir \<and> (4, ''mydir'') \<notin> disk cluster4_mydir"
  by (simp add: upload_def cluster4_mydir_def cluster4_a_down_def cluster4_a_def no_faults_def
      REPLICATION_def md_count_def written_def is_active_def node_at_def)

theorem upload_rejected_leaves_copies_witness:
  "''a.txt'' \<in> cwd (cluster4_a_down [1, 2]) \<and> ''a.txt'' \<notin> dirs (cluster4_a_down [1, 2]) \<and>
   int (length (filter active (nodes (cluster4_a_down [1, 2])))) < REPLICATION \<and>
   fst (upload no_faults ''a.txt'' (cluster4_a_down [1, 2])) = InsufficientReplicas \<and>
   fst (snd (upload no_faults ''a.txt'' (cluster4_a_down [1, 2]))) =
     [Store 3 ''a.txt'', Store 4 ''a.txt''] \<and>
   (3, ''a.txt'') \<in> disk (snd (snd (upload no_faults ''a.txt'' (cluster4_a_down [1, 2])))) \<and>
   (4, ''a.txt'') \<in> disk (snd (snd (upload no_faults ''a.txt'' (cluster4_a_down [1, 2])))) \<and>
   (4, ''a.txt'') \<notin> disk (cluster4_a_down [1, 2])"
proof -
  have src: "''a.txt'' \<in> cwd (cluster4_a_down [1, 2])"
    "''a.txt'' \<notin> dirs (cluster4_a_down [1, 2])"
    by (simp_all add: cluster4_a_down_def cluster4_a_def)
  have few: "int (length (filter active (nodes (cluster4_a_down [1, 2])))) < REPLICATION"
    by (simp add: cluster4_a_down_def cluster4_a_def REPLICATION_def)
  have ok: "\<forall>nd \<in> set (nodes (cluster4_a_down [1, 2])).
              active nd \<longrightarrow> \<not> no_faults (Store (node_id nd) ''a.txt'')"
    by (simp add: no_faults_def)
  have n: "filter active (nodes (cluster4_a_down [1, 2])) =
             [\<lparr>node_id = 3, active = True\<rparr>, \<lparr>node_id = 4, active = True\<rparr>]"
    "nodes (cluster4_a_down [1, 2]) =
       [\<lparr>node_id = 1, active = False\<rparr>, \<lparr>node_id = 2, active = False\<rparr>,
        \<lparr>node_id = 3, active = True\<rparr>, \<lparr>node_id = 4, active = True\<rparr>]"
    "(4, ''a.txt'') \<notin> disk (cluster4_a_down [1, 2])"
    by (simp_all add: cluster4_a_down_def cluster4_a_def)
  from upload_rejected_leaves_copies [OF src(1) few ok] src few n
  show ?thesis by simp
qed

subsection \<open>download\<close>

text \<open>
  Claim C4. For a key of the directory whose recorded ids name nodes: when \<open>n\<close> is the
  first id, in recorded order, of an active node (all ids recorded before it name
  inactive nodes), the download reads from node \<open>n\<close> and from no other node, and when
  that read does not throw, it reports the download from node \<open>n\<close>. For the recorded
  list 2, 1, 3 with node 2 inactive and node 1 active the read is from node 1 (the
  witness).
\<close>

theorem download_earliest_active:
  assumes v: "ids_valid s" and m: "map_of (metadata s) key = Some (pre @ n # post)"
    and pre: "\<forall>i \<in> set pre. \<not> is_active (nodes s) i" and n: "is_active (nodes s) n"
  shows "fst (snd (download io key s)) = [Fetch n key] \<and>
         (\<not> io (Fetch n key) \<and> (n, key) \<in> disk s \<longrightarrow>
            fst (download io key s) = DownloadSuccess n)"
  by (simp add: download_eq [OF assms])

theorem download_earliest_active_witness:
  "ids_valid cluster4_213 \<and> map_of (metadata cluster4_213) ''a.txt'' = Some ([2] @ 1 # [3]) \<and>
   \<not> is_active (nodes cluster4_213) 2 \<and> is_active (nodes cluster4_213) 1 \<and>
   is_active (nodes cluster4_213) 3 \<and>
   \<not> no_faults (Fetch 1 ''a.txt'') \<and> (1, ''a.txt'') \<in> disk cluster4_213 \<and>
   fst (snd (download no_faults ''a.txt'' cluster4_213)) = [Fetch 1 ''a.txt''] \<and>
   fst (download no_faults ''a.txt'' cluster4_213) = DownloadSuccess 1"
proof -
  have v: "ids_valid cluster4_213" by (simp add: cluster4_213_def ids_valid_def id_ok_def)
  have m: "map_of (metadata cluster4_213) ''a.txt'' = Some ([2] @ 1 # [3])"
    by (simp add: cluster4_213_def)
  have p: "\<forall>i \<in> set [2]. \<not> is_active (nodes cluster4_213) i"
    by (simp add: cluster4_213_def is_active_def node_at_def)
  have n: "is_active (nodes cluster4_213) 1"
    by (simp add: cluster4_213_def is_active_def node_at_def)
  have n3: "is_active (nodes cluster4_213) 3"
    by (simp add: cluster4_213_def is_active_def node_at_def)
  have f: "\<not> no_faults (Fetch 1 ''a.txt'') \<and> (1, ''a.txt'') \<in> disk cluster4_213"
    by (simp add: cluster4_213_def no_faults_def)
  from download_earliest_active [OF v m p n, of no_faults] v m p n n3 f
  show ?thesis by simp
qed

text \<open>
  Claim C6. For a key of the directory whose recorded ids name nodes: when the read from
  the first active replica \<open>n\<close> throws (for an outside reason, or because the copy is
  missing), the download reports the I/O error, has made that one read only, and leaves
  the state as it was, whatever the later replicas are.
\<close>

theorem download_aborts_on_io_failure:
  assumes v: "ids_valid s" and m: "map_of (metadata s) key = Some (pre @ n # post)"
    and pre: "\<forall>i \<in> set pre. \<not> is_active (nodes s) i" and n: "is_active (nodes s) n"
    and f: "io (Fetch n key) \<or> (n, key) \<notin> disk s"
  shows "download io key s = (ReplicationIOError, [Fetch n key], s)"
  using f by (simp add: download_eq [OF v m pre n])

theorem download_aborts_on_io_failure_witness:
  "ids_valid cluster4_a \<and> map_of (metadata cluster4_a) ''a.txt'' = Some ([] @ 1 # [2, 3]) \<and>
   is_active (nodes cluster4_a) 1 \<and> faults_on [Fetch 1 ''a.txt''] (Fetch 1 ''a.txt'') \<and>
   is_active (nodes cluster4_a) 2 \<and> \<not> faults_on [Fetch 1 ''a.txt''] (Fetch 2 ''a.txt'') \<and>
   (2, ''a.txt'') \<in> disk cluster4_a \<and>
   download (faults_on [Fetch 1 ''a.txt'']) ''a.txt'' cluster4_a =
     (ReplicationIOError, [Fetch 1 ''a.txt''], cluster4_a)"
proof -
  have v: "ids_valid cluster4_a" by (simp add: cluster4_a_def ids_valid_def id_ok_def)
  have m: "map_of (metadata cluster4_a) ''a.txt'' = Some ([] @ 1 # [2, 3])"
    by (simp add: cluster4_a_def)
  have p: "\<forall>i \<in> set []. \<not> is_active (nodes cluster4_a) i" by simp
  have n: "is_active (nodes cluster4_a) 1" "is_active (nodes cluster4_a) 2"
    by (simp_all add: cluster4_a_def is_active_def node_at_def)
  have f: "faults_on [Fetch 1 ''a.txt''] (Fetch 1 ''a.txt'') \<or> (1, ''a.txt'') \<notin> disk cluster4_a"
    by (simp add: faults_on_def)
  have g: "faults_on [Fetch 1 ''a.txt''] (Fetch 1 ''a.txt'')"
    "\<not> faults_on [Fetch 1 ''a.txt''] (Fetch 2 ''a.txt'')" "(2, ''a.txt'') \<in> disk cluster4_a"
    by (simp_all add: faults_on_def cluster4_a_def)
  from download_aborts_on_io_failure [where io = "faults_on [Fetch 1 ''a.txt'']", OF v m p n(1) f] v m n g
  show ?thesis by simp
qed

subsection \<open>deleteFile\<close>

text \<open>
  Claim C1, as amended. For a key of the directory whose recorded ids name nodes:
  when no removal throws, \<open>deleteFile\<close> removes the copy from every recorded node and
  erases the key from the directory; when a removal throws, at the recorded id \<open>b\<close>
  after the recorded ids \<open>pre\<close>, it reports the I/O error, keeps the directory as it
  was, and leaves the disk as it was except that the copies on the nodes \<open>pre\<close> are
  gone.
\<close>

theorem deleteFile_all_or_prefix:
  assumes v: "ids_valid s" and m: "map_of (metadata s) key = Some ns"
  shows "((\<forall>i \<in> set ns. \<not> io (Remove i key)) \<longrightarrow>
            deleteFile io key s =
              (DeleteSuccess, map (\<lambda>i. Remove i key) ns,
               s\<lparr>metadata := md_erase key (metadata s),
                 disk := disk s - (\<lambda>i. (i, key)) ` set ns\<rparr>) \<and>
            \<not> md_count (md_erase key (metadata s)) key)
       \<and> (\<forall>pre b post. ns = pre @ b # post \<and> (\<forall>i \<in> set pre. \<not> io (Remove i key)) \<and>
              io (Remove b key) \<longrightarrow>
            deleteFile io key s =
              (ReplicationIOError, map (\<lambda>i. Remove i key) pre @ [Remove b key],
               s\<lparr>disk := disk s - (\<lambda>i. (i, key)) ` set pre\<rparr>))"
proof (intro conjI impI allI)
  assume a: "\<forall>i \<in> set ns. \<not> io (Remove i key)"
  have "\<forall>i \<in> set ns. id_ok (nodes s) i \<and> \<not> io (Remove i key)"
    using a ids_validD [OF v m] by simp
  from delete_loop_all_removed [OF this]
  show "deleteFile io key s =
              (DeleteSuccess, map (\<lambda>i. Remove i key) ns,
               s\<lparr>metadata := md_erase key (metadata s),
                 disk := disk s - (\<lambda>i. (i, key)) ` set ns\<rparr>)"
    using m by (simp add: deleteFile_def md_count_def md_lookup_def)
next
  show "\<not> md_count (md_erase key (metadata s)) key"
    by (auto simp: md_count_def md_erase_def map_of_eq_None_iff)
next
  fix pre b post
  assume a: "ns = pre @ b # post \<and> (\<forall>i \<in> set pre. \<not> io (Remove i key)) \<and> io (Remove b key)"
  then have ns: "ns = pre @ b # post" and b: "io (Remove b key)" by simp_all
  have p: "\<forall>i \<in> set pre. id_ok (nodes s) i \<and> \<not> io (Remove i key)"
    using a ids_validD [OF v m] by simp
  have bok: "id_ok (nodes s) b" using ids_validD [OF v m, of b] ns by simp
  from delete_loop_stops [OF p bok b]
  show "deleteFile io key s =
              (ReplicationIOError, map (\<lambda>i. Remove i key) pre @ [Remove b key],
               s\<lparr>disk := disk s - (\<lambda>i. (i, key)) ` set pre\<rparr>)"
    using m ns by (simp add: deleteFile_def md_count_def md_lookup_def)
qed

text \<open>
  The claim as stated fails: with the removal on node 2 throwing, the key stays in the
  directory and the copy that node 1 had is gone.
\<close>

theorem deleteFile_partial_counterexample:
  "md_count (metadata cluster4_a) ''a.txt'' \<and>
   fst (deleteFile (faults_on [Remove 2 ''a.txt'']) ''a.txt'' cluster4_a) = ReplicationIOError \<and>
   md_count (metadata (snd (snd (deleteFile (faults_on [Remove 2 ''a.txt'']) ''a.txt'' cluster4_a))))
     ''a.txt'' \<and>
   (1, ''a.txt'') \<in> disk cluster4_a \<and>
   (1, ''a.txt'') \<notin> disk (snd (snd (deleteFile (faults_on [Remove 2 ''a.txt'']) ''a.txt'' cluster4_a)))"
  by (simp add: deleteFile_def cluster4_a_def faults_on_def md_count_def md_lookup_def node_at_def)

theorem deleteFile_all_or_prefix_witness:
  "ids_valid cluster4_a \<and> map_of (metadata cluster4_a) ''a.txt'' = Some [1, 2, 3] \<and>
   deleteFile no_faults ''a.txt'' cluster4_a =
     (DeleteSuccess, [Remove 1 ''a.txt'', Remove 2 ''a.txt'', Remove 3 ''a.txt''],
      cluster4_a\<lparr>metadata := [], disk := {}\<rparr>) \<and>
   deleteFile (faults_on [Remove 2 ''a.txt'']) ''a.txt'' cluster4_a =
     (ReplicationIOError, [Remove 1 ''a.txt'', Remove 2 ''a.txt''],
      cluster4_a\<lparr>disk := {(2, ''a.txt''), (3, ''a.txt'')}\<rparr>)"
proof -
  have v: "ids_valid cluster4_a" by (simp add: cluster4_a_def ids_valid_def id_ok_def)
  have m: "map_of (metadata cluster4_a) ''a.txt'' = Some [1, 2, 3]"
    by (simp add: cluster4_a_def)
  note t = deleteFile_all_or_prefix [OF v m]
  have e: "md_erase ''a.txt'' (metadata cluster4_a) = []"
    "disk cluster4_a - (\<lambda>i. (i, ''a.txt'')) ` set [1, 2, 3] = {}"
    "disk cluster4_a - (\<lambda>i. (i, ''a.txt'')) ` set [1] = {(2, ''a.txt''), (3, ''a.txt'')}"
    by (auto simp: cluster4_a_def md_erase_def)
  have a: "deleteFile no_faults ''a.txt'' cluster4_a =
     (DeleteSuccess, [Remove 1 ''a.txt'', Remove 2 ''a.txt'', Remove 3 ''a.txt''],
      cluster4_a\<lparr>metadata := [], disk := {}\<rparr>)"
    using t [of no_faults, THEN conjunct1] e by (simp add: no_faults_def)
  have b: "deleteFile (faults_on [Remove 2 ''a.txt'']) ''a.txt'' cluster4_a =
     (ReplicationIOError, [Remove 1 ''a.txt'', Remove 2 ''a.txt''],
      cluster4_a\<lparr>disk := {(2, ''a.txt''), (3, ''a.txt'')}\<rparr>)"
    using t [of "faults_on [Remove 2 ''a.txt'']", THEN conjunct2, rule_format, of "[1]" 2 "[3]"] e
    by (simp add: faults_on_def)
  from v m a b show ?thesis by simp
qed

subsection \<open>failNode and recoverNode\<close>

text \<open>
  Claim C9. For a node id \<open>x\<close> of the cluster, \<open>failNode x\<close> called twice in a row
  reports the failure both times (never an error), and node \<open>x\<close> is inactive after the
  first call and after the second. In the same way \<open>recoverNode x\<close> called twice
  reports the recovery both times and node \<open>x\<close> is active after each call.
  The ids recorded in the metadata name nodes of the cluster, as they do in every state
  the program reaches.
\<close>

theorem failNode_recoverNode_twice:
  assumes x: "id_ok (nodes s) x" and v: "ids_valid s"
  shows "(\<exists>ws1 ws2 s1 s2.
            failNode x s = (NodeFailed x ws1, s1) \<and> failNode x s1 = (NodeFailed x ws2, s2) \<and>
            map_option active (node_at (nodes s1) x) = Some False \<and>
            map_option active (node_at (nodes s2) x) = Some False)
       \<and> (\<exists>ws1 ws2 s1 s2.
            recoverNode x s = (NodeRecovered x ws1, s1) \<and>
            recoverNode x s1 = (NodeRecovered x ws2, s2) \<and>
            map_option active (node_at (nodes s1) x) = Some True \<and>
            map_option active (node_at (nodes s2) x) = Some True)"
proof
  let ?f = "s\<lparr>nodes := (nodes s)[nat (x - 1) := fail (nodes s ! nat (x - 1))]\<rparr>"
  have x1: "id_ok (nodes ?f) x" using x by simp
  have v1: "ids_valid ?f" using v by (simp add: ids_valid_def)
  let ?g = "?f\<lparr>nodes := (nodes ?f)[nat (x - 1) := fail (nodes ?f ! nat (x - 1))]\<rparr>"
  from failNode_eq [OF x v] obtain ws1 where a: "failNode x s = (NodeFailed x ws1, ?f)" ..
  from failNode_eq [OF x1 v1] obtain ws2 where b: "failNode x ?f = (NodeFailed x ws2, ?g)" ..
  have lt: "nat (x - 1) < length (nodes s)" using x by (auto simp: id_ok_def)
  have c: "map_option active (node_at (nodes ?f) x) = Some False"
    using x lt by (simp add: node_at_Some fail_def)
  have d: "map_option active (node_at (nodes ?g) x) = Some False"
    using x lt by (simp add: node_at_Some fail_def)
  from a b c d show "\<exists>ws1 ws2 s1 s2.
            failNode x s = (NodeFailed x ws1, s1) \<and> failNode x s1 = (NodeFailed x ws2, s2) \<and>
            map_option active (node_at (nodes s1) x) = Some False \<and>
            map_option active (node_at (nodes s2) x) = Some False" by blast
next
  let ?f = "s\<lparr>nodes := (nodes s)[nat (x - 1) := recover (nodes s ! nat (x - 1))]\<rparr>"
  have x1: "id_ok (nodes ?f) x" using x by simp
  have v1: "ids_valid ?f" using v by (simp add: ids_valid_def)
  let ?g = "?f\<lparr>nodes := (nodes ?f)[nat (x - 1) := recover (nodes ?f ! nat (x - 1))]\<rparr>"
  from recoverNode_eq [OF x v] obtain ws1
    where a: "recoverNode x s = (NodeRecovered x ws1, ?f)" ..
  from recoverNode_eq [OF x1 v1] obtain ws2
    where b: "recoverNode x ?f = (NodeRecovered x ws2, ?g)" ..
  have lt: "nat (x - 1) < length (nodes s)" using x by (auto simp: id_ok_def)
  have c: "map_option active (node_at (nodes ?f) x) = Some True"
    using x lt by (simp add: node_at_Some recover_def)
  have d: "map_option active (node_at (nodes ?g) x) = Some True"
    using x lt by (simp add: node_at_Some recover_def)
  from a b c d show "\<exists>ws1 ws2 s1 s2.
            recoverNode x s = (NodeRecovered x ws1, s1) \<and>
            recoverNode x s1 = (NodeRecovered x ws2, s2) \<and>
            map_option active (node_at (nodes s1) x) = Some True \<and>
            map_option active (node_at (nodes s2) x) = Some True" by blast
qed

theorem failNode_recoverNode_twice_witness:
  "id_ok (nodes cluster4_a) 2 \<and> ids_valid cluster4_a \<and>
   (\<exists>ws1 ws2 s1 s2.
      failNode 2 cluster4_a = (NodeFailed 2 ws1, s1) \<and> failNode 2 s1 = (NodeFailed 2 ws2, s2) \<and>
      map_option active (node_at (nodes s1) 2) = Some False \<and>
      map_option active (node_at (nodes s2) 2) = Some False) \<and>
   (\<exists>ws1 ws2 s1 s2.
      recoverNode 2 cluster4_a = (NodeRecovered 2 ws1, s1) \<and>
      recoverNode 2 s1 = (NodeRecovered 2 ws2, s2) \<and>
      map_option active (node_at (nodes s1) 2) = Some True \<and>
      map_option active (node_at (nodes s2) 2) = Some True)"
proof -
  have x: "id_ok (nodes cluster4_a) 2" by (simp add: cluster4_a_def id_ok_def)
  have v: "ids_valid cluster4_a" by (simp add: cluster4_a_def ids_valid_def id_ok_def)
  from x v failNode_recoverNode_twice [OF x v] show ?thesis by simp
qed

subsection \<open>The health audit\<close>

text \<open>
  Claim C7. In a state whose recorded ids name nodes, the audit runs to its end and warns
  about a key exactly when fewer than two of the key's recorded ids name active nodes;
  the warning carries that number. So a key with three recorded ids of which two are
  inactive gets the warning with count 1, and a key with three recorded ids of which
  one is inactive gets no warning.
\<close>

theorem audit_warns_iff:
  assumes v: "ids_valid s" and d: "distinct (map fst (metadata s))"
  shows "\<exists>ws. checkReplicaHealth s = Some ws \<and>
           (\<forall>k c. LowReplicaWarning k c \<in> set ws \<longleftrightarrow>
                  (\<exists>ns. map_of (metadata s) k = Some ns \<and>
                        c = active_count (nodes s) ns \<and> c < 2)) \<and>
           (\<forall>k ns. map_of (metadata s) k = Some ns \<and> length ns = 3 \<longrightarrow>
              (length (filter (\<lambda>i. \<not> is_active (nodes s) i) ns) = 2 \<longrightarrow>
                 LowReplicaWarning k 1 \<in> set ws) \<and>
              (length (filter (\<lambda>i. \<not> is_active (nodes s) i) ns) = 1 \<longrightarrow>
                 (\<forall>c. LowReplicaWarning k c \<notin> set ws)))"
proof -
  let ?ws = "map (\<lambda>e. LowReplicaWarning (fst e) (active_count (nodes s) (snd e)))
               (filter (\<lambda>e. active_count (nodes s) (snd e) < 2) (metadata s))"
  have h: "checkReplicaHealth s = Some ?ws" by (rule checkReplicaHealth_eq [OF v])
  have iff: "LowReplicaWarning k c \<in> set ?ws \<longleftrightarrow>
                  (\<exists>ns. map_of (metadata s) k = Some ns \<and>
                        c = active_count (nodes s) ns \<and> c < 2)" for k c
    using d by (auto simp: image_iff)
  have cnt: "active_count (nodes s) ns =
               int (length ns) - int (length (filter (\<lambda>i. \<not> is_active (nodes s) i) ns))" for ns
    using sum_length_filter_compl [of "is_active (nodes s)" ns]
    by (simp add: active_count_def)
  have ex: "(length (filter (\<lambda>i. \<not> is_active (nodes s) i) ns) = 2 \<longrightarrow>
                 LowReplicaWarning k 1 \<in> set ?ws) \<and>
              (length (filter (\<lambda>i. \<not> is_active (nodes s) i) ns) = 1 \<longrightarrow>
                 (\<forall>c. LowReplicaWarning k c \<notin> set ?ws))"
    if "map_of (metadata s) k = Some ns \<and> length ns = 3" for k ns
  proof -
    have m: "map_of (metadata s) k = Some ns" and l: "length ns = 3" using that by simp_all
    have a: "active_count (nodes s) ns =
               3 - int (length (filter (\<lambda>i. \<not> is_active (nodes s) i) ns))"
      using cnt [of ns] l by simp
    have two: "LowReplicaWarning k 1 \<in> set ?ws"
      if "length (filter (\<lambda>i. \<not> is_active (nodes s) i) ns) = 2"
      using that a m iff [of k 1] by simp
    have one: "LowReplicaWarning k c \<notin> set ?ws"
      if "length (filter (\<lambda>i. \<not> is_active (nodes s) i) ns) = 1" for c
      using that a m iff [of k c] by simp
    from two one show ?thesis by simp
  qed
  from h iff ex show ?thesis by blast
qed

theorem audit_warns_iff_witness:
  "ids_valid (cluster4_a_down [1, 2]) \<and> distinct (map fst (metadata (cluster4_a_down [1, 2]))) \<and>
   map_of (metadata (cluster4_a_down [1, 2])) ''a.txt'' = Some [1, 2, 3] \<and>
   length (filter (\<lambda>i. \<not> is_active (nodes (cluster4_a_down [1, 2])) i) [1, 2, 3]) = 2 \<and>
   (\<exists>ws. checkReplicaHealth (cluster4_a_down [1, 2]) = Some ws \<and>
         LowReplicaWarning ''a.txt'' 1 \<in> set ws) \<and>
   ids_valid (cluster4_a_down [1]) \<and> distinct (map fst (metadata (cluster4_a_down [1]))) \<and>
   map_of (metadata (cluster4_a_down [1])) ''a.txt'' = Some [1, 2, 3] \<and>
   length (filter (\<lambda>i. \<not> is_active (nodes (cluster4_a_down [1])) i) [1, 2, 3]) = 1 \<and>
   (\<exists>ws. checkReplicaHealth (cluster4_a_down [1]) = Some ws \<and>
         (\<forall>c. LowReplicaWarning ''a.txt'' c \<notin> set ws))"
proof -
  have v: "ids_valid (cluster4_a_down fs)" for fs
    by (simp add: cluster4_a_down_def cluster4_a_def ids_valid_def id_ok_def)
  have d: "distinct (map fst (metadata (cluster4_a_down fs)))" for fs
    by (simp add: cluster4_a_down_def cluster4_a_def)
  have m: "map_of (metadata (cluster4_a_down fs)) ''a.txt'' = Some [1, 2, 3] \<and>
           length [1, 2, 3 :: int] = 3" for fs
    by (simp add: cluster4_a_down_def cluster4_a_def)
  have c2: "length (filter (\<lambda>i. \<not> is_active (nodes (cluster4_a_down [1, 2])) i) [1, 2, 3]) = 2"
    by (simp add: cluster4_a_down_def cluster4_a_def is_active_def node_at_def)
  have c1: "length (filter (\<lambda>i. \<not> is_active (nodes (cluster4_a_down [1])) i) [1, 2, 3]) = 1"
    by (simp add: cluster4_a_down_def cluster4_a_def is_active_def node_at_def)
  from audit_warns_iff [OF v d, of "[1, 2]"] obtain ws2 where
    w2: "checkReplicaHealth (cluster4_a_down [1, 2]) = Some ws2" and
    e2: "\<forall>k ns. map_of (metadata (cluster4_a_down [1, 2])) k = Some ns \<and> length ns = 3 \<longrightarrow>
              (length (filter (\<lambda>i. \<not> is_active (nodes (cluster4_a_down [1, 2])) i) ns) = 2 \<longrightarrow>
                 LowReplicaWarning k 1 \<in> set ws2) \<and>
              (length (filter (\<lambda>i. \<not> is_active (nodes (cluster4_a_down [1, 2])) i) ns) = 1 \<longrightarrow>
                 (\<forall>c. LowReplicaWarning k c \<notin> set ws2))"
    by (elim exE conjE)
  from e2 [rule_format, OF m [of "[1, 2]"]] c2
  have "LowReplicaWarning ''a.txt'' 1 \<in> set ws2" by simp
  with w2 have a: "\<exists>ws. checkReplicaHealth (cluster4_a_down [1, 2]) = Some ws \<and>
         LowReplicaWarning ''a.txt'' 1 \<in> set ws" by simp
  from audit_warns_iff [OF v d, of "[1]"] obtain ws1 where
    w1: "checkReplicaHealth (cluster4_a_down [1]) = Some ws1" and
    e1: "\<forall>k ns. map_of (metadata (cluster4_a_down [1])) k = Some ns \<and> length ns = 3 \<longrightarrow>
              (length (filter (\<lambda>i. \<not> is_active (nodes (cluster4_a_down [1])) i) ns) = 2 \<longrightarrow>
                 LowReplicaWarning k 1 \<in> set ws1) \<and>
              (length (filter (\<lambda>i. \<not> is_active (nodes (cluster4_a_down [1])) i) ns) = 1 \<longrightarrow>
                 (\<forall>c. LowReplicaWarning k c \<notin> set ws1))"
    by (elim exE conjE)
  from e1 [rule_format, OF m [of "[1]"]] c1
  have "\<forall>c. LowReplicaWarning ''a.txt'' c \<notin> set ws1" by simp
  with w1 have b: "\<exists>ws. checkReplicaHealth (cluster4_a_down [1]) = Some ws \<and>
         (\<forall>c. LowReplicaWarning ''a.txt'' c \<notin> set ws)" by simp
  from v d m c1 c2 a b show ?thesis by simp
qed

end
